theory Spec2Isabelle
  imports Main "HOL-Library.Log_Nat"
begin

section \<open>JavaScript numbers\<close>

text \<open>
  Every number of the program is an IEEE 754 binary64 value.  A finite value is a rational
  \<open>Fin q\<close>; the other values are the two infinities and NaN.  The two zeros are
  identified: the modelled code never divides by a value that can be zero and never
  inspects the sign of a zero, so no result depends on it.

  An arithmetic operation computes the exact rational result and rounds it to the nearest
  value with a 53-bit significand, ties to even (\<open>rnd\<close>); a rounded magnitude of
  \<open>2 ^ 1024\<close> or more overflows to an infinity (\<open>double\<close>).  A decimal literal
  of the source such as \<open>0.8\<close> denotes \<open>double (4 / 5)\<close>.
\<close>

definition expo :: "rat \<Rightarrow> int" where
  "expo q = (if 1 \<le> \<bar>q\<bar> then bitlen \<lfloor>\<bar>q\<bar>\<rfloor> - 1 else - bitlen (\<lceil>1 / \<bar>q\<bar>\<rceil> - 1))"

definition bexp :: "rat \<Rightarrow> int" where
  "bexp q = max (expo q) (- 1022)"

definition ulp :: "rat \<Rightarrow> rat" where
  "ulp q = 2 powi (bexp q - 52)"

definition round_even :: "rat \<Rightarrow> int" where
  "round_even q = (let f = \<lfloor>q\<rfloor>; r = q - of_int f
                   in if r < 1 / 2 then f
                      else if 1 / 2 < r then f + 1
                      else if even f then f else f + 1)"

definition rnd :: "rat \<Rightarrow> rat" where
  "rnd q = of_int (round_even (q / ulp q)) * ulp q"

datatype jsnum = Fin rat | PInf | NInf | NaN

definition double :: "rat \<Rightarrow> jsnum" where
  "double q = (let r = rnd q
               in if 2 ^ 1024 \<le> r then PInf else if r \<le> - (2 ^ 1024) then NInf else Fin r)"

definition inf_of :: "bool \<Rightarrow> jsnum" where
  "inf_of negative = (if negative then NInf else PInf)"

fun is_neg :: "jsnum \<Rightarrow> bool" where
  "is_neg (Fin a) = (a < 0)"
| "is_neg NInf = True"
| "is_neg _ = False"

fun jadd :: "jsnum \<Rightarrow> jsnum \<Rightarrow> jsnum" where
  "jadd NaN _ = NaN"
| "jadd _ NaN = NaN"
| "jadd (Fin a) (Fin b) = double (a + b)"
| "jadd PInf NInf = NaN"
| "jadd NInf PInf = NaN"
| "jadd PInf _ = PInf"
| "jadd _ PInf = PInf"
| "jadd NInf _ = NInf"
| "jadd _ NInf = NInf"

fun jsub :: "jsnum \<Rightarrow> jsnum \<Rightarrow> jsnum" where
  "jsub NaN _ = NaN"
| "jsub _ NaN = NaN"
| "jsub (Fin a) (Fin b) = double (a - b)"
| "jsub PInf PInf = NaN"
| "jsub NInf NInf = NaN"
| "jsub PInf _ = PInf"
| "jsub _ NInf = PInf"
| "jsub NInf _ = NInf"
| "jsub _ PInf = NInf"

fun jmul :: "jsnum \<Rightarrow> jsnum \<Rightarrow> jsnum" where
  "jmul NaN _ = NaN"
| "jmul _ NaN = NaN"
| "jmul (Fin a) (Fin b) = double (a * b)"
| "jmul a b = (if a = Fin 0 \<or> b = Fin 0 then NaN else inf_of (is_neg a \<noteq> is_neg b))"

text \<open>
  Division of a non-zero finite value by zero takes the zero as positive; no division of
  the modelled code has a divisor that can be zero.
\<close>

fun jdiv :: "jsnum \<Rightarrow> jsnum \<Rightarrow> jsnum" where
  "jdiv NaN _ = NaN"
| "jdiv _ NaN = NaN"
| "jdiv (Fin a) (Fin b) =
     (if b = 0 then (if a = 0 then NaN else inf_of (a < 0)) else double (a / b))"
| "jdiv (Fin a) _ = Fin 0"
| "jdiv a (Fin b) = inf_of (is_neg a \<noteq> (b < 0))"
| "jdiv _ _ = NaN"

fun jlt :: "jsnum \<Rightarrow> jsnum \<Rightarrow> bool" where
  "jlt NaN _ = False"
| "jlt _ NaN = False"
| "jlt (Fin a) (Fin b) = (a < b)"
| "jlt PInf _ = False"
| "jlt _ NInf = False"
| "jlt _ _ = True"

fun jle :: "jsnum \<Rightarrow> jsnum \<Rightarrow> bool" where
  "jle NaN _ = False"
| "jle _ NaN = False"
| "jle (Fin a) (Fin b) = (a \<le> b)"
| "jle NInf _ = True"
| "jle _ PInf = True"
| "jle _ _ = False"

definition jgt :: "jsnum \<Rightarrow> jsnum \<Rightarrow> bool" where
  "jgt a b = jlt b a"

definition jge :: "jsnum \<Rightarrow> jsnum \<Rightarrow> bool" where
  "jge a b = jle b a"

text \<open>\<open>Math.min\<close> and \<open>Math.max\<close>: NaN as soon as one argument is NaN.\<close>

fun jmin :: "jsnum \<Rightarrow> jsnum \<Rightarrow> jsnum" where
  "jmin NaN _ = NaN"
| "jmin _ NaN = NaN"
| "jmin a b = (if jle a b then a else b)"

fun jmax :: "jsnum \<Rightarrow> jsnum \<Rightarrow> jsnum" where
  "jmax NaN _ = NaN"
| "jmax _ NaN = NaN"
| "jmax a b = (if jle a b then b else a)"

text \<open>\<open>Math.round\<close>, which rounds a tie towards plus infinity.\<close>

fun jround :: "jsnum \<Rightarrow> jsnum" where
  "jround (Fin a) = Fin (of_int \<lfloor>a + 1 / 2\<rfloor>)"
| "jround a = a"

text \<open>\<open>Math.ceil\<close>.\<close>

fun jceil :: "jsnum \<Rightarrow> jsnum" where
  "jceil (Fin a) = Fin (of_int \<lceil>a\<rceil>)"
| "jceil a = a"

text \<open>The \<open>length\<close> of an array, as a number.\<close>

definition jlen :: "'a list \<Rightarrow> jsnum" where
  "jlen xs = double (of_nat (length xs))"

text \<open>A number that is not negative and not NaN.\<close>

fun nonneg :: "jsnum \<Rightarrow> bool" where
  "nonneg (Fin q) = (0 \<le> q)"
| "nonneg PInf = True"
| "nonneg _ = False"

text \<open>A finite number that is a double: rounding does not change it.\<close>

definition finite_double :: "jsnum \<Rightarrow> bool" where
  "finite_double w = (case w of Fin q \<Rightarrow> double q = Fin q | _ \<Rightarrow> False)"

text \<open>
  The number of passes of \<open>for (let i = 0; i < bound; i++)\<close>: none when the loop does not
  end, which is when \<open>i\<close> can no longer grow before it reaches the bound.
\<close>

definition iterations :: "jsnum \<Rightarrow> nat option" where
  "iterations bound =
     (case bound of
        Fin q \<Rightarrow> if q \<le> 2 ^ 53 then Some (nat \<lceil>q\<rceil>) else None
      | PInf \<Rightarrow> None
      | _ \<Rightarrow> Some 0)"

text \<open>
  \<open>Math.random()\<close> and \<open>performance.now()\<close> are inputs.  A \<open>random_source\<close> gives
  the value of the \<open>n\<close>-th call of \<open>Math.random()\<close>; a state that draws from it
  counts its calls.  A clock reading is an argument of the function that reads the clock.
\<close>

type_synonym random_source = "nat \<Rightarrow> jsnum"

definition unit_interval :: "jsnum \<Rightarrow> bool" where
  "unit_interval r = (case r of Fin q \<Rightarrow> 0 \<le> q \<and> q < 1 | _ \<Rightarrow> False)"

section \<open>MockWaterSimulationEngine\<close>

record droplet =
  d_x :: jsnum
  d_y :: jsnum
  d_velocityX :: jsnum
  d_velocityY :: jsnum
  d_size :: jsnum
  d_life :: jsnum
  d_splashed :: bool

record splash =
  s_x :: jsnum
  s_y :: jsnum
  s_radius :: jsnum
  s_maxRadius :: jsnum
  s_expansionSpeed :: jsnum
  s_opacity :: jsnum
  s_life :: jsnum

record engine =
  waterLevel :: jsnum
  droplets :: "droplet list"
  splashEffects :: "splash list"
  gravity :: jsnum
  dropletIncrement :: jsnum
  maxDroplets :: nat
  maxSplashEffects :: nat
  randomCalls :: nat

text \<open>The constructor; \<open>randomCalls\<close> counts the calls of \<open>Math.random()\<close> made so far.\<close>

definition newEngine :: engine where
  "newEngine = \<lparr>waterLevel = Fin 0, droplets = [], splashEffects = [],
                 gravity = double (1 / 2), dropletIncrement = double (4 / 5),
                 maxDroplets = 10, maxSplashEffects = 5, randomCalls = 0\<rparr>"

text \<open>
  The object literal of \<open>addDroplet\<close>; \<open>n\<close> is the number of earlier calls of
  \<open>Math.random()\<close>, which the literal calls twice, for \<open>velocityX\<close> and then for
  \<open>size\<close>.
\<close>

definition newDroplet :: "random_source \<Rightarrow> nat \<Rightarrow> jsnum \<Rightarrow> jsnum \<Rightarrow> droplet" where
  "newDroplet rand n x y =
     \<lparr>d_x = x, d_y = y,
      d_velocityX = jmul (jsub (rand n) (double (1 / 2))) (Fin 2),
      d_velocityY = Fin 0,
      d_size = jadd (Fin 4) (jmul (rand (n + 1)) (Fin 2)),
      d_life = Fin 1,
      d_splashed = False\<rparr>"

definition addDroplet :: "random_source \<Rightarrow> jsnum \<Rightarrow> jsnum \<Rightarrow> engine \<Rightarrow> bool \<times> engine" where
  "addDroplet rand x y e =
     (if maxDroplets e \<le> length (droplets e) then (False, e)
      else
        (True,
         e\<lparr>droplets := droplets e @ [newDroplet rand (randomCalls e) x y],
           randomCalls := randomCalls e + 2\<rparr>))"

text \<open>
  The object literal of \<open>createSplash\<close>, which calls \<open>Math.random()\<close> for
  \<open>maxRadius\<close> and then for \<open>expansionSpeed\<close>.
\<close>

definition newSplash :: "random_source \<Rightarrow> nat \<Rightarrow> jsnum \<Rightarrow> jsnum \<Rightarrow> splash" where
  "newSplash rand n x y =
     \<lparr>s_x = x, s_y = y,
      s_radius = Fin 2,
      s_maxRadius = jadd (Fin 30) (jmul (rand n) (Fin 20)),
      s_expansionSpeed = jadd (Fin 50) (jmul (rand (n + 1)) (Fin 30)),
      s_opacity = double (4 / 5),
      s_life = Fin 1\<rparr>"

text \<open>\<open>shift()\<close> removes the first element and does nothing on an empty array, as \<open>tl\<close>.\<close>

definition createSplash :: "random_source \<Rightarrow> jsnum \<Rightarrow> jsnum \<Rightarrow> engine \<Rightarrow> engine" where
  "createSplash rand x y e =
     (let kept = (if maxSplashEffects e \<le> length (splashEffects e)
                  then tl (splashEffects e) else splashEffects e)
      in e\<lparr>splashEffects := kept @ [newSplash rand (randomCalls e) x y],
            randomCalls := randomCalls e + 2\<rparr>)"

text \<open>
  Reading a field of an array element beyond the end of the array raises a
  \<open>TypeError\<close>; nothing else in \<open>update\<close> can raise.
\<close>

datatype error = TypeError

text \<open>
  \<open>Math.min(100, waterLevel + dropletIncrement)\<close>, the level after one collision, and
  the loop \<open>for (i = 0; i < n; i++) waterLevel = Math.min(100, waterLevel + dropletIncrement)\<close>
  of \<open>testWaterLevelAccumulation\<close> and \<open>testEndToEndFlow\<close>.
\<close>

definition raise :: "jsnum \<Rightarrow> jsnum \<Rightarrow> jsnum" where
  "raise increment w = jmin (Fin 100) (jadd w increment)"

fun accumulate :: "nat \<Rightarrow> jsnum \<Rightarrow> jsnum \<Rightarrow> jsnum" where
  "accumulate 0 increment w = w"
| "accumulate (Suc n) increment w = accumulate n increment (raise increment w)"

definition raised :: "engine \<Rightarrow> jsnum" where
  "raised e = raise (dropletIncrement e) (waterLevel e)"

text \<open>
  The body of the first loop of \<open>update\<close>, at index \<open>i\<close>.  The droplet object is
  changed in place, so the changed droplet is written back at \<open>i\<close> unless
  \<open>splice(i, 1)\<close> removes it.
\<close>

definition dropletStep :: "random_source \<Rightarrow> jsnum \<Rightarrow> nat \<Rightarrow> engine \<Rightarrow> error + engine" where
  "dropletStep rand deltaTime i e =
     (if length (droplets e) \<le> i then Inl TypeError
      else
        let d0 = droplets e ! i;
            d1 = d0\<lparr>d_velocityY := jadd (d_velocityY d0) (jmul (gravity e) deltaTime)\<rparr>;
            d2 = d1\<lparr>d_x := jadd (d_x d1) (jmul (d_velocityX d1) deltaTime)\<rparr>;
            d3 = d2\<lparr>d_y := jadd (d_y d2) (jmul (d_velocityY d2) deltaTime)\<rparr>;
            waterSurfaceY = jsub (Fin 400) (jmul (jdiv (waterLevel e) (Fin 100)) (Fin 300));
            hit = (jge (d_y d3) waterSurfaceY \<and> \<not> d_splashed d3);
            d4 = (if hit then d3\<lparr>d_splashed := True\<rparr> else d3);
            e1 = (if hit
                  then createSplash rand (d_x d3) waterSurfaceY (e\<lparr>waterLevel := raised e\<rparr>)
                  else e)
        in if jgt (d_y d4) (Fin 450) \<or> jle (d_life d4) (Fin 0)
           then Inr (e1\<lparr>droplets := take i (droplets e1) @ drop (Suc i) (droplets e1)\<rparr>)
           else Inr (e1\<lparr>droplets := (droplets e1)
                       [i := d4\<lparr>d_life := jsub (d_life d4) (jmul deltaTime (double (1 / 1000)))\<rparr>]\<rparr>))"

text \<open>
  \<open>for (let i = length - 1; i >= 0; i--)\<close>: \<open>dropletLoop rand deltaTime n\<close> runs the
  body at the indices \<open>n - 1\<close> down to \<open>0\<close>.
\<close>

fun dropletLoop :: "random_source \<Rightarrow> jsnum \<Rightarrow> nat \<Rightarrow> engine \<Rightarrow> error + engine" where
  "dropletLoop rand deltaTime 0 e = Inr e"
| "dropletLoop rand deltaTime (Suc i) e =
     (case dropletStep rand deltaTime i e of
        Inl err \<Rightarrow> Inl err
      | Inr e' \<Rightarrow> dropletLoop rand deltaTime i e')"

definition splashStep :: "jsnum \<Rightarrow> nat \<Rightarrow> engine \<Rightarrow> error + engine" where
  "splashStep deltaTime i e =
     (if length (splashEffects e) \<le> i then Inl TypeError
      else
        let s0 = splashEffects e ! i;
            s1 = s0\<lparr>s_radius := jadd (s_radius s0) (jmul (s_expansionSpeed s0) deltaTime)\<rparr>;
            s2 = s1\<lparr>s_opacity := jsub (s_opacity s1) (jmul deltaTime (double (2 / 1000)))\<rparr>;
            s3 = s2\<lparr>s_life := jsub (s_life s2) (jmul deltaTime (double (1 / 1000)))\<rparr>
        in if jle (s_life s3) (Fin 0) \<or> jle (s_opacity s3) (Fin 0)
           then Inr (e\<lparr>splashEffects := take i (splashEffects e) @ drop (Suc i) (splashEffects e)\<rparr>)
           else Inr (e\<lparr>splashEffects := (splashEffects e)[i := s3]\<rparr>))"

fun splashLoop :: "jsnum \<Rightarrow> nat \<Rightarrow> engine \<Rightarrow> error + engine" where
  "splashLoop deltaTime 0 e = Inr e"
| "splashLoop deltaTime (Suc i) e =
     (case splashStep deltaTime i e of
        Inl err \<Rightarrow> Inl err
      | Inr e' \<Rightarrow> splashLoop deltaTime i e')"

definition update :: "random_source \<Rightarrow> jsnum \<Rightarrow> engine \<Rightarrow> error + engine" where
  "update rand deltaTime e =
     (case dropletLoop rand deltaTime (length (droplets e)) e of
        Inl err \<Rightarrow> Inl err
      | Inr e' \<Rightarrow> splashLoop deltaTime (length (splashEffects e')) e')"

text \<open>A sequence of calls on one engine; the first call that raises ends it.\<close>

datatype call = AddDroplet jsnum jsnum | Update jsnum | CreateSplash jsnum jsnum

fun perform :: "random_source \<Rightarrow> call \<Rightarrow> engine \<Rightarrow> error + engine" where
  "perform rand (AddDroplet x y) e = Inr (snd (addDroplet rand x y e))"
| "perform rand (Update deltaTime) e = update rand deltaTime e"
| "perform rand (CreateSplash x y) e = Inr (createSplash rand x y e)"

fun run :: "random_source \<Rightarrow> call list \<Rightarrow> engine \<Rightarrow> error + engine" where
  "run rand [] e = Inr e"
| "run rand (c # cs) e =
     (case perform rand c e of Inl err \<Rightarrow> Inl err | Inr e' \<Rightarrow> run rand cs e')"

section \<open>FrameRateMonitor\<close>

record monitor =
  frameCount :: jsnum
  lastTime :: jsnum
  fps :: jsnum
  fpsHistory :: "jsnum list"
  maxHistoryLength :: nat

text \<open>The constructor reads the clock once.\<close>

definition newFrameRateMonitor :: "jsnum \<Rightarrow> monitor" where
  "newFrameRateMonitor now =
     \<lparr>frameCount = Fin 0, lastTime = now, fps = Fin 60, fpsHistory = [], maxHistoryLength = 60\<rparr>"

text \<open>\<open>reduce((a, b) => a + b, 0)\<close> adds from the left, starting at \<open>0\<close>.\<close>

definition getAverageFps :: "monitor \<Rightarrow> jsnum" where
  "getAverageFps m =
     (if length (fpsHistory m) = 0 then Fin 60
      else jdiv (foldl jadd (Fin 0) (fpsHistory m)) (jlen (fpsHistory m)))"

text \<open>\<open>FrameRateMonitor.update\<close>, with the clock reading as argument.\<close>

definition update_monitor :: "jsnum \<Rightarrow> monitor \<Rightarrow> monitor" where
  "update_monitor currentTime m =
     (let deltaTime = jsub currentTime (lastTime m);
          m1 = (if jgt deltaTime (Fin 0)
                then
                  let pushed = fpsHistory m @ [jdiv (Fin 1000) deltaTime];
                      kept = (if maxHistoryLength m < length pushed then tl pushed else pushed);
                      m' = m\<lparr>fpsHistory := kept\<rparr>
                  in m'\<lparr>fps := getAverageFps m'\<rparr>
                else m)
      in m1\<lparr>lastTime := currentTime, frameCount := jadd (frameCount m1) (Fin 1)\<rparr>)"

definition getCurrentFps :: "monitor \<Rightarrow> jsnum" where
  "getCurrentFps m = jround (fps m)"

section \<open>PerformanceScaler\<close>

record scaler =
  performanceLevel :: jsnum
  lastAdjustment :: jsnum
  adjustmentCooldown :: jsnum
  minPerformanceLevel :: jsnum

definition newPerformanceScaler :: scaler where
  "newPerformanceScaler =
     \<lparr>performanceLevel = Fin 1, lastAdjustment = Fin 0, adjustmentCooldown = Fin 2000,
      minPerformanceLevel = double (3 / 10)\<rparr>"

text \<open>
  \<open>adjustPerformance\<close>, with the clock reading as first argument; the result is the
  returned level and the scaler after the call.
\<close>

definition adjustPerformance :: "jsnum \<Rightarrow> monitor \<Rightarrow> scaler \<Rightarrow> jsnum \<times> scaler" where
  "adjustPerformance currentTime frameRateMonitor s =
     (if jlt (jsub currentTime (lastAdjustment s)) (adjustmentCooldown s)
      then (performanceLevel s, s)
      else
        let fps = getCurrentFps frameRateMonitor;
            s1 = (if jlt fps (Fin 20)
                  then s\<lparr>performanceLevel :=
                         jmax (minPerformanceLevel s) (jmul (performanceLevel s) (double (6 / 10)))\<rparr>
                  else if jlt fps (Fin 30)
                  then s\<lparr>performanceLevel :=
                         jmax (minPerformanceLevel s) (jmul (performanceLevel s) (double (8 / 10)))\<rparr>
                  else if jgt fps (Fin 50) \<and> jlt (performanceLevel s) (Fin 1)
                  then s\<lparr>performanceLevel :=
                         jmin (Fin 1) (jmul (performanceLevel s) (double (11 / 10)))\<rparr>
                  else s);
            s2 = s1\<lparr>lastAdjustment := currentTime\<rparr>
        in (performanceLevel s2, s2))"

section \<open>Milestones\<close>

text \<open>
  The milestone table and the evaluation loop of \<open>testMilestoneThresholds\<close> and
  \<open>testEndToEndFlow\<close> in \<open>test-runner.js\<close>.  \<open>Object.entries\<close> lists the keys in
  the order of the object literal, so the table is a list in that order.
\<close>

record milestone =
  threshold :: jsnum
  achieved :: bool

type_synonym milestones = "(string \<times> milestone) list"

definition newMilestones :: milestones where
  "newMilestones =
     [(''fish'', \<lparr>threshold = Fin 30, achieved = False\<rparr>),
      (''waves'', \<lparr>threshold = Fin 70, achieved = False\<rparr>),
      (''completion'', \<lparr>threshold = Fin 100, achieved = False\<rparr>)]"

text \<open>
  One pass of the loop at a water level: the keys pushed to the result array, in the
  order of the pass, and the table after it.
\<close>

fun evaluate :: "jsnum \<Rightarrow> milestones \<Rightarrow> string list \<times> milestones" where
  "evaluate level [] = ([], [])"
| "evaluate level ((key, m) # rest) =
     (let (names, rest') = evaluate level rest
      in if \<not> achieved m \<and> jge level (threshold m)
         then (key # names, (key, m\<lparr>achieved := True\<rparr>) # rest')
         else (names, (key, m) # rest'))"

text \<open>
  \<open>testEndToEndFlow\<close> of \<open>test-runner.js\<close>: the loop that raises the level and marks
  the milestones, and the value of \<open>flowComplete\<close> after
  \<open>Math.ceil(targetLevel / dropletIncrement)\<close> passes.
\<close>

fun endToEndLoop :: "nat \<Rightarrow> jsnum \<Rightarrow> jsnum \<Rightarrow> milestones \<Rightarrow> jsnum \<times> milestones" where
  "endToEndLoop 0 increment w ms = (w, ms)"
| "endToEndLoop (Suc n) increment w ms =
     (let w' = raise increment w
      in endToEndLoop n increment w' (snd (evaluate w' ms)))"

definition is_achieved :: "milestones \<Rightarrow> string \<Rightarrow> bool" where
  "is_achieved ms key = (case map_of ms key of Some m \<Rightarrow> achieved m | None \<Rightarrow> False)"

definition testEndToEndFlow :: "bool option" where
  "testEndToEndFlow =
     (let dropletIncrement = double (4 / 5);
          targetLevel = Fin 100;
          requiredDroplets = jceil (jdiv targetLevel dropletIncrement)
      in case iterations requiredDroplets of
           None \<Rightarrow> None
         | Some n \<Rightarrow>
             let (waterLevel, ms) = endToEndLoop n dropletIncrement (Fin 0) newMilestones
             in Some (jge waterLevel (Fin 100) \<and> is_achieved ms ''fish'' \<and>
                      is_achieved ms ''waves'' \<and> is_achieved ms ''completion''))"

section \<open>Progress Manager\<close>

text \<open>
  Modelled from the spec: the Progress Manager (\<open>save\<close>, \<open>load\<close>) is not in the
  sources; only tests that call \<open>localStorage\<close>, \<open>JSON.stringify\<close> and
  \<open>JSON.parse\<close> directly are.  The specification (4.6) has \<open>save\<close> serialise
  \<open>{waterLevel, milestones}\<close> and write it under one fixed key, a failure being caught and
  reported as a warning, and \<open>load\<close> read and deserialise, with \<open>null\<close> for a missing
  key, corrupt JSON or unavailable storage.

  A JSON value has finite numbers only: \<open>JSON.stringify\<close> writes NaN and the infinities
  as \<open>null\<close>.  A stored string is taken by what \<open>JSON.parse\<close> makes of it: the document
  it denotes, or a syntax error.  \<open>JSON.parse\<close> reads a number as the nearest double.
\<close>

datatype json = JNull | JBool bool | JNumber rat | JString string | JArray "json list"
  | JObject "(string \<times> json) list"

datatype stored = Document json | Malformed

datatype storage_error = SecurityError | QuotaExceededError | SyntaxError

record storage =
  available :: bool
  full :: bool
  items :: "string \<Rightarrow> stored option"

definition emptyStorage :: storage where
  "emptyStorage = \<lparr>available = True, full = False, items = (\<lambda>key. None)\<rparr>"

definition getItem :: "string \<Rightarrow> storage \<Rightarrow> storage_error + stored option" where
  "getItem key st = (if available st then Inr (items st key) else Inl SecurityError)"

definition setItem :: "string \<Rightarrow> stored \<Rightarrow> storage \<Rightarrow> storage_error + storage" where
  "setItem key value st =
     (if \<not> available st then Inl SecurityError
      else if full st then Inl QuotaExceededError
      else Inr (st\<lparr>items := (items st)(key := Some value)\<rparr>))"

definition parse :: "stored \<Rightarrow> storage_error + json" where
  "parse t = (case t of Document j \<Rightarrow> Inr j | Malformed \<Rightarrow> Inl SyntaxError)"

record progress =
  p_waterLevel :: jsnum
  p_milestones :: "(string \<times> bool) list"

text \<open>
  Modelled from the spec: the fixed key, whose name the specification does not give, and
  the serialised form of the persisted record
  \<open>{ waterLevel: number, milestones: { [name]: boolean } }\<close>.
\<close>

definition storageKey :: string where
  "storageKey = ''water-progress''"

fun json_number :: "jsnum \<Rightarrow> json" where
  "json_number (Fin q) = JNumber q"
| "json_number _ = JNull"

definition stringify :: "progress \<Rightarrow> stored" where
  "stringify p =
     Document (JObject [(''waterLevel'', json_number (p_waterLevel p)),
                        (''milestones'', JObject (map (\<lambda>(k, b). (k, JBool b)) (p_milestones p)))])"

fun json_flag :: "string \<times> json \<Rightarrow> (string \<times> bool) option" where
  "json_flag (k, JBool b) = Some (k, b)"
| "json_flag _ = None"

definition from_json :: "json \<Rightarrow> progress option" where
  "from_json j =
     (case j of
        JObject members \<Rightarrow>
          (case (map_of members ''waterLevel'', map_of members ''milestones'') of
             (Some (JNumber q), Some (JObject flags)) \<Rightarrow>
               (case those (map json_flag flags) of
                  Some ms \<Rightarrow> Some \<lparr>p_waterLevel = double q, p_milestones = ms\<rparr>
                | None \<Rightarrow> None)
           | _ \<Rightarrow> None)
      | _ \<Rightarrow> None)"

text \<open>
  Modelled from the spec: \<open>save(state)\<close> of the Progress Manager, which is not in the
  sources.  It serialises the record and writes it under the fixed key; a storage failure
  is caught and reported, here as the result \<open>False\<close>, and leaves the storage as it is.
\<close>

definition save :: "progress \<Rightarrow> storage \<Rightarrow> bool \<times> storage" where
  "save p st =
     (case setItem storageKey (stringify p) st of
        Inl err \<Rightarrow> (False, st)
      | Inr st' \<Rightarrow> (True, st'))"

text \<open>
  Modelled from the spec: \<open>load()\<close> of the Progress Manager, which is not in the
  sources.  It reads and deserialises; \<open>None\<close> is \<open>null\<close>, returned for a missing key,
  corrupt JSON, a document that is not a progress record, and unavailable storage.
\<close>

definition load :: "storage \<Rightarrow> progress option" where
  "load st =
     (case getItem storageKey st of
        Inl err \<Rightarrow> None
      | Inr None \<Rightarrow> None
      | Inr (Some t) \<Rightarrow>
          (case parse t of
             Inl err \<Rightarrow> None
           | Inr j \<Rightarrow> from_json j))"

section \<open>Predicates of the statements\<close>

text \<open>A water level is in range when it is a finite number from \<open>0\<close> to \<open>100\<close>.\<close>

definition level_ok :: "jsnum \<Rightarrow> bool" where
  "level_ok w = (case w of Fin q \<Rightarrow> 0 \<le> q \<and> q \<le> 100 | _ \<Rightarrow> False)"

text \<open>
  The engine \<open>a\<close> has a level in range that is at least \<open>w\<close>, and the increment of
  the constructor.
\<close>

definition rising :: "jsnum \<Rightarrow> engine \<Rightarrow> bool" where
  "rising w a = (level_ok (waterLevel a) \<and> jle w (waterLevel a) \<and>
                 dropletIncrement a = double (4 / 5))"

definition all_splashed :: "engine \<Rightarrow> bool" where
  "all_splashed e = list_all d_splashed (droplets e)"

definition splash_ok :: "splash \<Rightarrow> bool" where
  "splash_ok s =
     (nonneg (s_radius s) \<and> (case s_expansionSpeed s of Fin q \<Rightarrow> 0 < q | _ \<Rightarrow> False))"

definition radii_ok :: "engine \<Rightarrow> bool" where
  "radii_ok e = list_all splash_ok (splashEffects e)"

text \<open>
  A scaler with the floor and the cooldown of the constructor and a level between the
  floor and \<open>1\<close>.
\<close>

definition scaler_ok :: "scaler \<Rightarrow> bool" where
  "scaler_ok s =
     (minPerformanceLevel s = double (3 / 10) \<and> adjustmentCooldown s = Fin 2000 \<and>
      (case performanceLevel s of
         Fin l \<Rightarrow> 5404319552844595 / 18014398509481984 \<le> l \<and> l \<le> 1
       | _ \<Rightarrow> False))"

text \<open>
  A splash after a tick of \<open>deltaTime\<close> as the specification words it: the radius grown
  at the expansion speed, opacity and life decayed linearly; and the condition under
  which it is removed.
\<close>

definition aged :: "jsnum \<Rightarrow> splash \<Rightarrow> splash" where
  "aged deltaTime s =
     s\<lparr>s_radius := jadd (s_radius s) (jmul (s_expansionSpeed s) deltaTime),
       s_opacity := jsub (s_opacity s) (jmul deltaTime (double (2 / 1000))),
       s_life := jsub (s_life s) (jmul deltaTime (double (1 / 1000)))\<rparr>"

definition expired :: "splash \<Rightarrow> bool" where
  "expired s = (jle (s_life s) (Fin 0) \<or> jle (s_opacity s) (Fin 0))"

text \<open>
  The splashes that a sequence of \<open>createSplash\<close> calls at the positions \<open>ps\<close>
  creates, in the order of the calls, after \<open>n\<close> earlier calls of \<open>Math.random()\<close>.
\<close>

fun created :: "random_source \<Rightarrow> nat \<Rightarrow> (jsnum \<times> jsnum) list \<Rightarrow> splash list" where
  "created rand n [] = []"
| "created rand n ((x, y) # ps) = newSplash rand n x y # created rand (n + 2) ps"

definition createSplashes :: "(jsnum \<times> jsnum) list \<Rightarrow> call list" where
  "createSplashes ps = map (\<lambda>(x, y). CreateSplash x y) ps"

text \<open>\<open>n\<close> times \<open>addDroplet(0, 500)\<close> and \<open>update(0)\<close>: each droplet starts below the
  surface, so the first \<open>update\<close> after it is its collision.\<close>

fun collisions :: "nat \<Rightarrow> call list" where
  "collisions 0 = []"
| "collisions (Suc n) = collisions n @ [AddDroplet (Fin 0) (Fin 500), Update (Fin 0)]"

section \<open>Example states\<close>

text \<open>A random source that always gives \<open>0.5\<close>.\<close>

definition half :: random_source where
  "half = (\<lambda>k. Fin (1 / 2))"

text \<open>
  The engine after \<open>addDroplet(0, 420)\<close> and \<open>update(0)\<close> on a new engine, with
  \<open>half\<close> as random source: the droplet has hit the surface at \<open>y = 400\<close>.
\<close>

definition collided :: engine where
  "collided =
     \<lparr>waterLevel = Fin (3602879701896397 / 4503599627370496),
      droplets = [\<lparr>d_x = Fin 0, d_y = Fin 420, d_velocityX = Fin 0, d_velocityY = Fin 0,
                   d_size = Fin 5, d_life = Fin 1, d_splashed = True\<rparr>],
      splashEffects = [\<lparr>s_x = Fin 0, s_y = Fin 400, s_radius = Fin 2, s_maxRadius = Fin 40,
                        s_expansionSpeed = Fin 65,
                        s_opacity = Fin (3602879701896397 / 4503599627370496), s_life = Fin 1\<rparr>],
      gravity = Fin (1 / 2),
      dropletIncrement = Fin (3602879701896397 / 4503599627370496),
      maxDroplets = 10, maxSplashEffects = 5, randomCalls = 4\<rparr>"

text \<open>The engine \<open>collided\<close> after \<open>update(1)\<close>.\<close>

definition one_ms_later :: engine where
  "one_ms_later =
     \<lparr>waterLevel = Fin (3602879701896397 / 4503599627370496),
      droplets = [\<lparr>d_x = Fin 0, d_y = Fin (841 / 2), d_velocityX = Fin 0,
                   d_velocityY = Fin (1 / 2), d_size = Fin 5,
                   d_life = Fin (8998192055486251 / 9007199254740992), d_splashed = True\<rparr>],
      splashEffects = [\<lparr>s_x = Fin 0, s_y = Fin 400, s_radius = Fin 67, s_maxRadius = Fin 40,
                        s_expansionSpeed = Fin 65,
                        s_opacity = Fin (449234062830207 / 562949953421312),
                        s_life = Fin (8998192055486251 / 9007199254740992)\<rparr>],
      gravity = Fin (1 / 2),
      dropletIncrement = Fin (3602879701896397 / 4503599627370496),
      maxDroplets = 10, maxSplashEffects = 5, randomCalls = 4\<rparr>"

text \<open>The engine \<open>collided\<close> after \<open>update(-1)\<close>.\<close>

definition one_ms_earlier :: engine where
  "one_ms_earlier =
     \<lparr>waterLevel = Fin (3602879701896397 / 4503599627370496),
      droplets = [\<lparr>d_x = Fin 0, d_y = Fin (841 / 2), d_velocityX = Fin 0,
                   d_velocityY = Fin (- (1 / 2)), d_size = Fin 5,
                   d_life = Fin (2254051613498933 / 2251799813685248), d_splashed = True\<rparr>],
      splashEffects = [\<lparr>s_x = Fin 0, s_y = Fin 400, s_radius = Fin (- 63), s_maxRadius = Fin 40,
                        s_expansionSpeed = Fin 65,
                        s_opacity = Fin (1805943450575569 / 2251799813685248),
                        s_life = Fin (2254051613498933 / 2251799813685248)\<rparr>],
      gravity = Fin (1 / 2),
      dropletIncrement = Fin (3602879701896397 / 4503599627370496),
      maxDroplets = 10, maxSplashEffects = 5, randomCalls = 4\<rparr>"

text \<open>
  A new engine after \<open>addDroplet(0, -1000000)\<close>, and that engine after
  \<open>update(1000)\<close>.
\<close>

definition falling :: engine where
  "falling = snd (addDroplet half (Fin 0) (Fin (- 1000000)) newEngine)"

definition fallen :: engine where
  "fallen =
     \<lparr>waterLevel = Fin 0,
      droplets = [\<lparr>d_x = Fin 0, d_y = Fin (- 500000), d_velocityX = Fin 0,
                   d_velocityY = Fin 500, d_size = Fin 5, d_life = Fin 0,
                   d_splashed = False\<rparr>],
      splashEffects = [],
      gravity = Fin (1 / 2),
      dropletIncrement = Fin (3602879701896397 / 4503599627370496),
      maxDroplets = 10, maxSplashEffects = 5, randomCalls = 2\<rparr>"

text \<open>A monitor whose \<open>fps\<close> field a test has set to \<open>15\<close>.\<close>

definition slow :: monitor where
  "slow = (newFrameRateMonitor (Fin 0))\<lparr>fps := Fin 15\<rparr>"

text \<open>The scaler after adjustments at \<open>2000\<close>, \<open>4000\<close> and \<open>6000\<close> ms with \<open>slow\<close>.\<close>

definition at_floor :: scaler where
  "at_floor =
     \<lparr>performanceLevel = Fin (5404319552844595 / 18014398509481984),
      lastAdjustment = Fin 6000, adjustmentCooldown = Fin 2000,
      minPerformanceLevel = Fin (5404319552844595 / 18014398509481984)\<rparr>"

section \<open>Properties of rounding\<close>

lemma ulp_pos: "0 < ulp q"
  by (simp add: ulp_def)

lemma round_even_err: "\<bar>of_int (round_even t) - t\<bar> \<le> 1 / 2"
proof -
  have "of_int \<lfloor>t\<rfloor> \<le> t" "t < of_int \<lfloor>t\<rfloor> + 1"
    by linarith+
  then show ?thesis
    by (auto simp: round_even_def Let_def abs_le_iff)
qed

lemma round_even_nonneg: "0 \<le> t \<Longrightarrow> 0 \<le> round_even t"
  by (auto simp: round_even_def Let_def)

lemma round_even_nonpos: "t \<le> 0 \<Longrightarrow> round_even t \<le> 0"
proof -
  assume t: "t \<le> 0"
  have f: "\<lfloor>t\<rfloor> \<le> 0" using t by (simp add: floor_le_zero)
  show ?thesis
  proof (cases "t = of_int \<lfloor>t\<rfloor>")
    case True
    then have "t - of_int \<lfloor>t\<rfloor> = 0" by simp
    then show ?thesis using f by (simp add: round_even_def Let_def)
  next
    case False
    have "of_int \<lfloor>t\<rfloor> \<le> t" by linarith
    with False have "of_int \<lfloor>t\<rfloor> < t" by linarith
    with t have "\<lfloor>t\<rfloor> < 0" by linarith
    then show ?thesis by (auto simp: round_even_def Let_def)
  qed
qed

lemma rnd_err: "\<bar>rnd q - q\<bar> \<le> ulp q / 2"
proof -
  have u: "0 < ulp q" by (rule ulp_pos)
  have "rnd q - q = (of_int (round_even (q / ulp q)) - q / ulp q) * ulp q"
    using u by (simp add: rnd_def algebra_simps)
  then have "\<bar>rnd q - q\<bar> = \<bar>of_int (round_even (q / ulp q)) - q / ulp q\<bar> * ulp q"
    using u by (simp add: abs_mult)
  also have "\<dots> \<le> (1 / 2) * ulp q"
    using round_even_err [of "q / ulp q"] u by (intro mult_right_mono) auto
  finally show ?thesis by simp
qed

lemma rnd_nonneg: "0 \<le> q \<Longrightarrow> 0 \<le> rnd q"
  using ulp_pos [of q] round_even_nonneg [of "q / ulp q"] by (simp add: rnd_def)

lemma rnd_nonpos: "q \<le> 0 \<Longrightarrow> rnd q \<le> 0"
  using ulp_pos [of q] round_even_nonpos [of "q / ulp q"]
  by (simp add: rnd_def mult_le_0_iff divide_le_0_iff)

lemma expo_le: assumes "q \<noteq> 0" shows "2 powi (expo q) \<le> \<bar>q\<bar>"
proof (cases "1 \<le> \<bar>q\<bar>")
  case True
  let ?n = "\<lfloor>\<bar>q\<bar>\<rfloor>"
  have n: "0 < ?n" using True by simp
  have b: "1 \<le> bitlen ?n" using n by (simp add: bitlen_alt_def)
  from bitlen_bounds [OF n] have "2 ^ nat (bitlen ?n - 1) \<le> ?n" ..
  then have "(of_int (2 ^ nat (bitlen ?n - 1)) :: rat) \<le> of_int ?n"
    by (simp only: of_int_le_iff)
  also have "\<dots> \<le> \<bar>q\<bar>" by linarith
  finally have "(2::rat) ^ nat (bitlen ?n - 1) \<le> \<bar>q\<bar>" by simp
  then show ?thesis using True b by (simp add: expo_def power_int_def)
next
  case False
  let ?m = "\<lceil>1 / \<bar>q\<bar>\<rceil>"
  have a: "0 < \<bar>q\<bar>" "\<bar>q\<bar> < 1" using assms False by auto
  then have "1 < 1 / \<bar>q\<bar>" by (simp add: field_simps)
  then have m: "1 < ?m" by (simp add: less_ceiling_iff)
  then have m1: "0 < ?m - 1" by simp
  from bitlen_bounds [OF m1] have "?m - 1 < 2 ^ nat (bitlen (?m - 1))" ..
  then have "?m \<le> 2 ^ nat (bitlen (?m - 1))" by simp
  then have "(of_int ?m :: rat) \<le> of_int (2 ^ nat (bitlen (?m - 1)))"
    by (simp only: of_int_le_iff)
  then have "(of_int ?m :: rat) \<le> 2 ^ nat (bitlen (?m - 1))" by simp
  moreover have "1 / \<bar>q\<bar> \<le> of_int ?m" by linarith
  ultimately have "1 / \<bar>q\<bar> \<le> 2 ^ nat (bitlen (?m - 1))" by linarith
  then have "1 / 2 ^ nat (bitlen (?m - 1)) \<le> \<bar>q\<bar>"
    using a by (simp add: field_simps)
  moreover have "0 \<le> bitlen (?m - 1)" by (rule bitlen_nonneg)
  ultimately show ?thesis using False
    by (simp add: expo_def power_int_minus power_int_nonneg_exp field_simps)
qed

lemma expo_less: assumes "q \<noteq> 0" "\<bar>q\<bar> < 2 powi k" shows "expo q < k"
proof (rule ccontr)
  assume "\<not> expo q < k"
  then have "k \<le> expo q" by simp
  then have "(2::rat) powi k \<le> 2 powi (expo q)" by (intro power_int_increasing) auto
  with expo_le [OF assms(1)] assms(2) show False by linarith
qed

lemma ulp_le: assumes "\<bar>q\<bar> < 2 powi k" "- 1021 \<le> k" "q \<noteq> 0 \<or> 0 < k"
  shows "ulp q \<le> 2 powi (k - 53)"
proof -
  have "expo q < k"
  proof (cases "q = 0")
    case True
    then show ?thesis using assms(3) by (simp add: expo_def bitlen_def)
  next
    case False
    then show ?thesis using assms(1) by (rule expo_less)
  qed
  then have "bexp q - 52 \<le> k - 53"
    using assms(2) by (simp add: bexp_def)
  then show ?thesis unfolding ulp_def by (intro power_int_increasing) auto
qed

lemma rnd_bounds: assumes "\<bar>q\<bar> < 2 powi k" "- 1021 \<le> k" "q \<noteq> 0 \<or> 0 < k"
  shows "q - 2 powi (k - 54) \<le> rnd q" "rnd q \<le> q + 2 powi (k - 54)"
proof -
  have "ulp q / 2 \<le> 2 powi (k - 53) / 2"
    using ulp_le [OF assms] by simp
  also have "\<dots> = 2 powi (k - 54)"
    by (simp add: power_int_diff)
  finally have "\<bar>rnd q - q\<bar> \<le> 2 powi (k - 54)"
    using rnd_err [of q] by linarith
  then show "q - 2 powi (k - 54) \<le> rnd q" "rnd q \<le> q + 2 powi (k - 54)"
    by linarith+
qed


lemma round_even_of_int: "round_even (of_int n) = n"
  by (simp add: round_even_def)

lemma round_even_mono: assumes "s \<le> t" shows "round_even s \<le> round_even t"
proof (cases "\<lfloor>s\<rfloor> = \<lfloor>t\<rfloor>")
  case True
  then show ?thesis using assms by (auto simp: round_even_def Let_def)
next
  case False
  with floor_mono [OF assms] have "\<lfloor>s\<rfloor> + 1 \<le> \<lfloor>t\<rfloor>" by simp
  moreover have "round_even s \<le> \<lfloor>s\<rfloor> + 1" by (simp add: round_even_def Let_def)
  moreover have "\<lfloor>t\<rfloor> \<le> round_even t" by (simp add: round_even_def Let_def)
  ultimately show ?thesis by linarith
qed

lemma round_even_minus: "round_even (- t) = - round_even t"
proof (cases "t = of_int \<lfloor>t\<rfloor>")
  case True
  then obtain n where "t = of_int n" ..
  then have "round_even (- t) = round_even (of_int (- n))" by simp
  also have "\<dots> = - n" by (rule round_even_of_int)
  finally show ?thesis using \<open>t = of_int n\<close> by (simp add: round_even_of_int)
next
  case False
  have "of_int \<lfloor>t\<rfloor> \<le> t" "t < of_int \<lfloor>t\<rfloor> + 1" by linarith+
  with False have b: "of_int \<lfloor>t\<rfloor> < t" "t < of_int \<lfloor>t\<rfloor> + 1" by linarith+
  then have f: "\<lfloor>- t\<rfloor> = - \<lfloor>t\<rfloor> - 1"
    by (intro floor_unique) simp_all
  show ?thesis
    unfolding round_even_def Let_def f using b by auto
qed

lemma expo_minus: "expo (- q) = expo q"
  by (simp add: expo_def)

lemma ulp_minus: "ulp (- q) = ulp q"
  by (simp add: ulp_def bexp_def expo_minus)

lemma rnd_minus: "rnd (- q) = - rnd q"
  by (simp add: rnd_def ulp_minus round_even_minus)

lemma expo_gt: assumes "q \<noteq> 0" shows "\<bar>q\<bar> < 2 powi (expo q + 1)"
proof (cases "1 \<le> \<bar>q\<bar>")
  case True
  let ?n = "\<lfloor>\<bar>q\<bar>\<rfloor>"
  have n: "0 < ?n" using True by simp
  have b: "1 \<le> bitlen ?n" using n by (simp add: bitlen_alt_def)
  from bitlen_bounds [OF n] have "?n < 2 ^ nat (bitlen ?n)" ..
  then have "?n + 1 \<le> 2 ^ nat (bitlen ?n)" by simp
  then have "(of_int (?n + 1) :: rat) \<le> of_int (2 ^ nat (bitlen ?n))"
    by (simp only: of_int_le_iff)
  then have "(of_int ?n :: rat) + 1 \<le> 2 ^ nat (bitlen ?n)" by simp
  moreover have "\<bar>q\<bar> < of_int ?n + 1" by linarith
  ultimately have "\<bar>q\<bar> < 2 ^ nat (bitlen ?n)" by linarith
  then show ?thesis using True b by (simp add: expo_def power_int_nonneg_exp)
next
  case False
  let ?m = "\<lceil>1 / \<bar>q\<bar>\<rceil>"
  let ?k = "bitlen (?m - 1)"
  have a: "0 < \<bar>q\<bar>" "\<bar>q\<bar> < 1" using assms False by auto
  then have "1 < 1 / \<bar>q\<bar>" by (simp add: field_simps)
  then have m: "1 < ?m" by (simp add: less_ceiling_iff)
  then have m1: "0 < ?m - 1" by simp
  have k: "1 \<le> ?k" using m1 by (simp add: bitlen_alt_def)
  from bitlen_bounds [OF m1] have "2 ^ nat (?k - 1) \<le> ?m - 1" ..
  then have "(of_int (2 ^ nat (?k - 1)) :: rat) \<le> of_int (?m - 1)"
    by (simp only: of_int_le_iff)
  then have "(2 :: rat) ^ nat (?k - 1) \<le> of_int ?m - 1" by simp
  moreover have "of_int ?m - 1 < 1 / \<bar>q\<bar>" by linarith
  ultimately have "(2 :: rat) ^ nat (?k - 1) < 1 / \<bar>q\<bar>" by linarith
  then have "\<bar>q\<bar> < 1 / 2 ^ nat (?k - 1)"
    using a by (simp add: field_simps)
  also have "\<dots> = 2 powi (- (?k - 1))"
  proof -
    have "(2::rat) powi (?k - 1) = 2 ^ nat (?k - 1)"
      using k by (intro power_int_nonneg_exp) simp
    then show ?thesis
      by (simp only: power_int_minus divide_inverse mult_1)
  qed
  finally show ?thesis using False by (simp add: expo_def)
qed

lemma expo_mono: assumes "0 < x" "x \<le> y" shows "expo x \<le> expo y"
proof (rule ccontr)
  assume "\<not> expo x \<le> expo y"
  then have "expo y + 1 \<le> expo x" by simp
  then have "(2::rat) powi (expo y + 1) \<le> 2 powi (expo x)"
    by (intro power_int_increasing) auto
  moreover have "2 powi (expo x) \<le> \<bar>x\<bar>" using assms by (intro expo_le) auto
  moreover have "\<bar>y\<bar> < 2 powi (expo y + 1)" using assms by (intro expo_gt) auto
  ultimately show False using assms by linarith
qed

lemma rnd_upper: assumes "0 < q" shows "rnd q \<le> 2 powi (bexp q + 1)"
proof -
  have u: "0 < ulp q" by (rule ulp_pos)
  have "q < 2 powi (expo q + 1)" using expo_gt [of q] assms by simp
  also have "\<dots> \<le> 2 powi (bexp q + 1)"
    by (intro power_int_increasing) (auto simp: bexp_def)
  finally have "q / ulp q \<le> 2 powi (bexp q + 1) / ulp q"
    using u by (simp add: divide_right_mono)
  also have "\<dots> = 2 ^ 53"
    by (simp add: ulp_def power_int_diff power_int_add)
  finally have "round_even (q / ulp q) \<le> round_even (of_int (2 ^ 53))"
    by (intro round_even_mono) simp
  then have "round_even (q / ulp q) \<le> 2 ^ 53"
    by (simp only: round_even_of_int)
  then have "(of_int (round_even (q / ulp q)) :: rat) \<le> of_int (2 ^ 53)"
    by (simp only: of_int_le_iff)
  then have "rnd q \<le> 2 ^ 53 * ulp q"
    unfolding rnd_def using u by (intro mult_right_mono) auto
  also have "\<dots> = 2 powi (bexp q + 1)"
    by (simp add: ulp_def power_int_diff power_int_add)
  finally show ?thesis .
qed

lemma rnd_lower: assumes "0 < q" "- 1022 \<le> expo q" shows "2 powi (bexp q) \<le> rnd q"
proof -
  have u: "0 < ulp q" by (rule ulp_pos)
  have b: "bexp q = expo q" using assms(2) by (simp add: bexp_def)
  have "2 powi (bexp q) \<le> q" using expo_le [of q] assms(1) b by simp
  then have "2 powi (bexp q) / ulp q \<le> q / ulp q"
    using u by (simp add: divide_right_mono)
  moreover have "2 powi (bexp q) / ulp q = 2 ^ 52"
    by (simp add: ulp_def power_int_diff)
  ultimately have "round_even (of_int (2 ^ 52)) \<le> round_even (q / ulp q)"
    by (intro round_even_mono) simp
  then have "2 ^ 52 \<le> round_even (q / ulp q)"
    by (simp only: round_even_of_int)
  then have "(of_int (2 ^ 52) :: rat) \<le> of_int (round_even (q / ulp q))"
    by (simp only: of_int_le_iff)
  then have "2 ^ 52 * ulp q \<le> rnd q"
    unfolding rnd_def using u by (intro mult_right_mono) auto
  moreover have "2 ^ 52 * ulp q = 2 powi (bexp q)"
    by (simp add: ulp_def power_int_diff)
  ultimately show ?thesis by simp
qed

lemma rnd_mono_pos: assumes "0 < x" "x \<le> y" shows "rnd x \<le> rnd y"
proof (cases "bexp x = bexp y")
  case True
  then have u: "ulp x = ulp y" by (simp add: ulp_def)
  have "x / ulp y \<le> y / ulp y" using assms ulp_pos [of y] by (simp add: divide_right_mono)
  then have "round_even (x / ulp y) \<le> round_even (y / ulp y)" by (rule round_even_mono)
  then have "(of_int (round_even (x / ulp y)) :: rat) \<le> of_int (round_even (y / ulp y))"
    by (simp only: of_int_le_iff)
  then show ?thesis unfolding rnd_def u using ulp_pos [of y] by (intro mult_right_mono) auto
next
  case False
  have "expo x \<le> expo y" using assms by (rule expo_mono)
  with False have lt: "bexp x < bexp y" and n: "- 1022 \<le> expo y"
    by (auto simp: bexp_def max_def split: if_splits)
  have "rnd x \<le> 2 powi (bexp x + 1)" using assms(1) by (rule rnd_upper)
  also have "\<dots> \<le> 2 powi (bexp y)" using lt by (intro power_int_increasing) auto
  also have "\<dots> \<le> rnd y" using assms n by (intro rnd_lower) auto
  finally show ?thesis .
qed

lemma rnd_mono: assumes "x \<le> y" shows "rnd x \<le> rnd y"
proof -
  consider "0 < x" | "x \<le> 0" "0 \<le> y" | "y < 0" by linarith
  then show ?thesis
  proof cases
    case 1
    then show ?thesis using assms by (rule rnd_mono_pos)
  next
    case 2
    then show ?thesis using rnd_nonpos [of x] rnd_nonneg [of y] by linarith
  next
    case 3
    then have "rnd (- y) \<le> rnd (- x)" using assms by (intro rnd_mono_pos) auto
    then show ?thesis by (simp add: rnd_minus)
  qed
qed

section \<open>The loops of update\<close>

lemma createSplash_frame [simp]:
  "waterLevel (createSplash rand x y e) = waterLevel e"
  "droplets (createSplash rand x y e) = droplets e"
  "gravity (createSplash rand x y e) = gravity e"
  "dropletIncrement (createSplash rand x y e) = dropletIncrement e"
  "maxDroplets (createSplash rand x y e) = maxDroplets e"
  "maxSplashEffects (createSplash rand x y e) = maxSplashEffects e"
  "randomCalls (createSplash rand x y e) = randomCalls e + 2"
  by (simp_all add: createSplash_def Let_def)

lemma createSplash_splashEffects:
  "splashEffects (createSplash rand x y e) =
     (if maxSplashEffects e \<le> length (splashEffects e)
      then tl (splashEffects e) else splashEffects e) @ [newSplash rand (randomCalls e) x y]"
  by (simp add: createSplash_def Let_def)

lemma createSplash_length:
  assumes "1 \<le> maxSplashEffects e" "length (splashEffects e) \<le> maxSplashEffects e"
  shows "length (splashEffects (createSplash rand x y e)) \<le> maxSplashEffects e"
  using assms by (auto simp: createSplash_splashEffects)

lemma dropletStep_Inr:
  "i < length (droplets e) \<Longrightarrow> \<exists>e'. dropletStep rand dt i e = Inr e'"
  by (simp add: dropletStep_def Let_def)

lemma dropletStep_Inl:
  "dropletStep rand dt i e = Inl err \<Longrightarrow> length (droplets e) \<le> i"
  by (auto simp: dropletStep_def Let_def split: if_splits)

lemma dropletStep_frame:
  assumes "dropletStep rand dt i e = Inr e'"
  shows "gravity e' = gravity e" "dropletIncrement e' = dropletIncrement e"
    "maxDroplets e' = maxDroplets e" "maxSplashEffects e' = maxSplashEffects e"
  using assms by (auto simp: dropletStep_def Let_def split: if_splits)

lemma dropletStep_length:
  assumes "dropletStep rand dt i e = Inr e'"
  shows "i < length (droplets e)" "i \<le> length (droplets e')"
    "length (droplets e') \<le> length (droplets e)"
  using assms by (auto simp: dropletStep_def Let_def split: if_splits)

lemma dropletStep_level:
  assumes "dropletStep rand dt i e = Inr e'"
  shows "waterLevel e' = waterLevel e \<or>
         (waterLevel e' = raised e \<and> \<not> d_splashed (droplets e ! i))"
  using assms by (auto simp: dropletStep_def Let_def split: if_splits)

lemma dropletLoop_Inr:
  "n \<le> length (droplets e) \<Longrightarrow> \<exists>e'. dropletLoop rand dt n e = Inr e'"
proof (induction n arbitrary: e)
  case 0
  then show ?case by simp
next
  case (Suc n)
  then obtain e1 where s: "dropletStep rand dt n e = Inr e1"
    using dropletStep_Inr [of n e rand dt] by auto
  then have "n \<le> length (droplets e1)" by (rule dropletStep_length)
  from Suc.IH [OF this] show ?case using s by simp
qed

lemma dropletLoop_invariant:
  assumes "dropletLoop rand dt n e = Inr e'" "P e"
    and "\<And>i a b. P a \<Longrightarrow> dropletStep rand dt i a = Inr b \<Longrightarrow> P b"
  shows "P e'"
  using assms(1,2)
proof (induction n arbitrary: e)
  case 0
  then show ?case by simp
next
  case (Suc n)
  then show ?case using assms(3) by (auto split: sum.splits)
qed

lemma splashStep_Inr:
  "i < length (splashEffects e) \<Longrightarrow> \<exists>e'. splashStep dt i e = Inr e'"
  by (simp add: splashStep_def Let_def)

lemma splashStep_frame:
  assumes "splashStep dt i e = Inr e'"
  shows "waterLevel e' = waterLevel e" "droplets e' = droplets e" "gravity e' = gravity e"
    "dropletIncrement e' = dropletIncrement e"
    "maxDroplets e' = maxDroplets e" "maxSplashEffects e' = maxSplashEffects e"
    "randomCalls e' = randomCalls e"
  using assms by (auto simp: splashStep_def Let_def split: if_splits)

lemma splashStep_length:
  assumes "splashStep dt i e = Inr e'"
  shows "i < length (splashEffects e)" "i \<le> length (splashEffects e')"
    "length (splashEffects e') \<le> length (splashEffects e)"
  using assms by (auto simp: splashStep_def Let_def split: if_splits)

lemma splashLoop_Inr:
  "n \<le> length (splashEffects e) \<Longrightarrow> \<exists>e'. splashLoop dt n e = Inr e'"
proof (induction n arbitrary: e)
  case 0
  then show ?case by simp
next
  case (Suc n)
  then obtain e1 where s: "splashStep dt n e = Inr e1"
    using splashStep_Inr [of n e dt] by auto
  then have "n \<le> length (splashEffects e1)" by (rule splashStep_length)
  from Suc.IH [OF this] show ?case using s by simp
qed

lemma splashLoop_invariant:
  assumes "splashLoop dt n e = Inr e'" "P e"
    and "\<And>i a b. P a \<Longrightarrow> splashStep dt i a = Inr b \<Longrightarrow> P b"
  shows "P e'"
  using assms(1,2)
proof (induction n arbitrary: e)
  case 0
  then show ?case by simp
next
  case (Suc n)
  then show ?case using assms(3) by (auto split: sum.splits)
qed

lemma update_Inr: "\<exists>e'. update rand dt e = Inr e'"
proof -
  obtain e1 where a: "dropletLoop rand dt (length (droplets e)) e = Inr e1"
    using dropletLoop_Inr [of "length (droplets e)" e rand dt] by auto
  obtain e2 where "splashLoop dt (length (splashEffects e1)) e1 = Inr e2"
    using splashLoop_Inr [of "length (splashEffects e1)" e1 dt] by auto
  with a show ?thesis by (simp add: update_def)
qed

lemma update_invariant:
  assumes "update rand dt e = Inr e'" "P e"
    and "\<And>i a b. P a \<Longrightarrow> dropletStep rand dt i a = Inr b \<Longrightarrow> P b"
    and "\<And>i a b. P a \<Longrightarrow> splashStep dt i a = Inr b \<Longrightarrow> P b"
  shows "P e'"
proof -
  from assms(1) obtain e1 where a: "dropletLoop rand dt (length (droplets e)) e = Inr e1"
    and b: "splashLoop dt (length (splashEffects e1)) e1 = Inr e'"
    by (auto simp: update_def split: sum.splits)
  from a assms(2,3) have "P e1" by (rule dropletLoop_invariant)
  with b show ?thesis using assms(4) by (rule splashLoop_invariant)
qed

lemma run_Inr: "\<exists>e'. run rand cs e = Inr e'"
proof (induction cs arbitrary: e)
  case Nil
  then show ?case by simp
next
  case (Cons c cs)
  obtain e1 where "perform rand c e = Inr e1"
    using update_Inr [of rand _ e] by (cases c) auto
  then show ?case using Cons.IH [of e1] by simp
qed

lemma run_invariant:
  assumes "run rand cs e = Inr e'" "P e"
    and "\<And>c a b. P a \<Longrightarrow> perform rand c a = Inr b \<Longrightarrow> P b"
  shows "P e'"
  using assms(1,2)
proof (induction cs arbitrary: e)
  case Nil
  then show ?case by simp
next
  case (Cons c cs)
  then show ?case using assms(3) by (auto split: sum.splits)
qed

section \<open>Evaluating numbers\<close>

lemma bitlen_numeral [simp]:
  "bitlen 1 = 1"
  "bitlen (numeral Num.One) = 1"
  "bitlen (numeral (Num.Bit0 n)) = bitlen (numeral n) + 1"
  "bitlen (numeral (Num.Bit1 n)) = bitlen (numeral n) + 1"
  by (subst compute_bitlen, simp)+

lemma floor_rat_numeral [simp]:
  "\<lfloor>numeral a / numeral b :: rat\<rfloor> = numeral a div numeral b"
  "\<lfloor>- (numeral a / numeral b) :: rat\<rfloor> = - numeral a div numeral b"
  "\<lfloor>1 / numeral b :: rat\<rfloor> = 1 div numeral b"
  "\<lfloor>- (1 / numeral b) :: rat\<rfloor> = - 1 div numeral b"
     apply (metis floor_divide_of_int_eq of_int_numeral)
    apply (metis divide_minus_left floor_divide_of_int_eq of_int_neg_numeral of_int_numeral)
   apply (metis floor_divide_of_int_eq of_int_1 of_int_numeral)
  apply (metis divide_minus_left floor_divide_of_int_eq of_int_minus of_int_1 of_int_numeral)
  done

lemma ceiling_rat_numeral [simp]:
  "\<lceil>numeral a / numeral b :: rat\<rceil> = - (- numeral a div numeral b)"
  "\<lceil>1 / numeral b :: rat\<rceil> = - (- 1 div numeral b)"
  unfolding ceiling_def by (simp_all flip: minus_divide_left)

lemmas num_eval = expo_def bexp_def ulp_def round_even_def rnd_def double_def Let_def

lemma rnd_consts:
  "rnd 0 = 0" "rnd (1 / 2) = 1 / 2" "rnd 1 = 1" "rnd 2 = 2" "rnd 100 = 100"
  by (simp_all add: num_eval)

lemma expo_unique:
  assumes "2 powi e \<le> \<bar>q\<bar>" "\<bar>q\<bar> < 2 powi (e + 1)"
  shows "expo q = e"
proof -
  have "0 < (2::rat) powi e" by simp
  then have "0 < \<bar>q\<bar>" using assms(1) by linarith
  then have q: "q \<noteq> 0" by simp
  have "expo q < e + 1" using q assms(2) by (rule expo_less)
  moreover have "e < expo q + 1"
  proof (rule ccontr)
    assume "\<not> e < expo q + 1"
    then have "(2::rat) powi (expo q + 1) \<le> 2 powi e" by (intro power_int_increasing) auto
    with expo_gt [OF q] assms(1) show False by linarith
  qed
  ultimately show ?thesis by simp
qed

lemma rnd_binade:
  assumes "2 powi e \<le> \<bar>q\<bar>" "\<bar>q\<bar> < 2 powi (e + 1)" "- 1022 \<le> e"
  shows "rnd q = of_int (round_even (q / 2 powi (e - 52))) * 2 powi (e - 52)"
  using expo_unique [OF assms(1,2)] assms(3) by (simp add: rnd_def ulp_def bexp_def)

lemma double_fin:
  assumes "\<bar>q\<bar> \<le> 1048576"
  shows "double q = Fin (rnd q)"
proof -
  have "rnd q \<le> rnd 1048576" using assms by (intro rnd_mono) simp
  moreover have "rnd (- 1048576) \<le> rnd q" using assms by (intro rnd_mono) simp
  moreover have "rnd 1048576 = 1048576" by (simp add: num_eval)
  ultimately show ?thesis by (simp add: double_def Let_def rnd_minus)
qed

lemma rnd_eval:
  "1 / 1024 \<le> \<bar>q\<bar> \<Longrightarrow> \<bar>q\<bar> < 1 / 512 \<Longrightarrow> rnd q = of_int (round_even (q * 2 ^ 62)) / 2 ^ 62"
  "1 / 512 \<le> \<bar>q\<bar> \<Longrightarrow> \<bar>q\<bar> < 1 / 256 \<Longrightarrow> rnd q = of_int (round_even (q * 2 ^ 61)) / 2 ^ 61"
  "1 / 256 \<le> \<bar>q\<bar> \<Longrightarrow> \<bar>q\<bar> < 1 / 128 \<Longrightarrow> rnd q = of_int (round_even (q * 2 ^ 60)) / 2 ^ 60"
  "1 / 128 \<le> \<bar>q\<bar> \<Longrightarrow> \<bar>q\<bar> < 1 / 64 \<Longrightarrow> rnd q = of_int (round_even (q * 2 ^ 59)) / 2 ^ 59"
  "1 / 64 \<le> \<bar>q\<bar> \<Longrightarrow> \<bar>q\<bar> < 1 / 32 \<Longrightarrow> rnd q = of_int (round_even (q * 2 ^ 58)) / 2 ^ 58"
  "1 / 32 \<le> \<bar>q\<bar> \<Longrightarrow> \<bar>q\<bar> < 1 / 16 \<Longrightarrow> rnd q = of_int (round_even (q * 2 ^ 57)) / 2 ^ 57"
  "1 / 16 \<le> \<bar>q\<bar> \<Longrightarrow> \<bar>q\<bar> < 1 / 8 \<Longrightarrow> rnd q = of_int (round_even (q * 2 ^ 56)) / 2 ^ 56"
  "1 / 8 \<le> \<bar>q\<bar> \<Longrightarrow> \<bar>q\<bar> < 1 / 4 \<Longrightarrow> rnd q = of_int (round_even (q * 2 ^ 55)) / 2 ^ 55"
  "1 / 4 \<le> \<bar>q\<bar> \<Longrightarrow> \<bar>q\<bar> < 1 / 2 \<Longrightarrow> rnd q = of_int (round_even (q * 2 ^ 54)) / 2 ^ 54"
  "1 / 2 \<le> \<bar>q\<bar> \<Longrightarrow> \<bar>q\<bar> < 1 \<Longrightarrow> rnd q = of_int (round_even (q * 2 ^ 53)) / 2 ^ 53"
  "1 \<le> \<bar>q\<bar> \<Longrightarrow> \<bar>q\<bar> < 2 \<Longrightarrow> rnd q = of_int (round_even (q * 2 ^ 52)) / 2 ^ 52"
  "2 \<le> \<bar>q\<bar> \<Longrightarrow> \<bar>q\<bar> < 4 \<Longrightarrow> rnd q = of_int (round_even (q * 2 ^ 51)) / 2 ^ 51"
  "4 \<le> \<bar>q\<bar> \<Longrightarrow> \<bar>q\<bar> < 8 \<Longrightarrow> rnd q = of_int (round_even (q * 2 ^ 50)) / 2 ^ 50"
  "8 \<le> \<bar>q\<bar> \<Longrightarrow> \<bar>q\<bar> < 16 \<Longrightarrow> rnd q = of_int (round_even (q * 2 ^ 49)) / 2 ^ 49"
  "16 \<le> \<bar>q\<bar> \<Longrightarrow> \<bar>q\<bar> < 32 \<Longrightarrow> rnd q = of_int (round_even (q * 2 ^ 48)) / 2 ^ 48"
  "32 \<le> \<bar>q\<bar> \<Longrightarrow> \<bar>q\<bar> < 64 \<Longrightarrow> rnd q = of_int (round_even (q * 2 ^ 47)) / 2 ^ 47"
  "64 \<le> \<bar>q\<bar> \<Longrightarrow> \<bar>q\<bar> < 128 \<Longrightarrow> rnd q = of_int (round_even (q * 2 ^ 46)) / 2 ^ 46"
  "128 \<le> \<bar>q\<bar> \<Longrightarrow> \<bar>q\<bar> < 256 \<Longrightarrow> rnd q = of_int (round_even (q * 2 ^ 45)) / 2 ^ 45"
  "256 \<le> \<bar>q\<bar> \<Longrightarrow> \<bar>q\<bar> < 512 \<Longrightarrow> rnd q = of_int (round_even (q * 2 ^ 44)) / 2 ^ 44"
  "512 \<le> \<bar>q\<bar> \<Longrightarrow> \<bar>q\<bar> < 1024 \<Longrightarrow> rnd q = of_int (round_even (q * 2 ^ 43)) / 2 ^ 43"
  "1024 \<le> \<bar>q\<bar> \<Longrightarrow> \<bar>q\<bar> < 2048 \<Longrightarrow> rnd q = of_int (round_even (q * 2 ^ 42)) / 2 ^ 42"
  "2048 \<le> \<bar>q\<bar> \<Longrightarrow> \<bar>q\<bar> < 4096 \<Longrightarrow> rnd q = of_int (round_even (q * 2 ^ 41)) / 2 ^ 41"
  "4096 \<le> \<bar>q\<bar> \<Longrightarrow> \<bar>q\<bar> < 8192 \<Longrightarrow> rnd q = of_int (round_even (q * 2 ^ 40)) / 2 ^ 40"
  "8192 \<le> \<bar>q\<bar> \<Longrightarrow> \<bar>q\<bar> < 16384 \<Longrightarrow> rnd q = of_int (round_even (q * 2 ^ 39)) / 2 ^ 39"
  "16384 \<le> \<bar>q\<bar> \<Longrightarrow> \<bar>q\<bar> < 32768 \<Longrightarrow> rnd q = of_int (round_even (q * 2 ^ 38)) / 2 ^ 38"
  "32768 \<le> \<bar>q\<bar> \<Longrightarrow> \<bar>q\<bar> < 65536 \<Longrightarrow> rnd q = of_int (round_even (q * 2 ^ 37)) / 2 ^ 37"
  "65536 \<le> \<bar>q\<bar> \<Longrightarrow> \<bar>q\<bar> < 131072 \<Longrightarrow> rnd q = of_int (round_even (q * 2 ^ 36)) / 2 ^ 36"
  "131072 \<le> \<bar>q\<bar> \<Longrightarrow> \<bar>q\<bar> < 262144 \<Longrightarrow> rnd q = of_int (round_even (q * 2 ^ 35)) / 2 ^ 35"
  "262144 \<le> \<bar>q\<bar> \<Longrightarrow> \<bar>q\<bar> < 524288 \<Longrightarrow> rnd q = of_int (round_even (q * 2 ^ 34)) / 2 ^ 34"
  "524288 \<le> \<bar>q\<bar> \<Longrightarrow> \<bar>q\<bar> < 1048576 \<Longrightarrow> rnd q = of_int (round_even (q * 2 ^ 33)) / 2 ^ 33"
  "1048576 \<le> \<bar>q\<bar> \<Longrightarrow> \<bar>q\<bar> < 2097152 \<Longrightarrow> rnd q = of_int (round_even (q * 2 ^ 32)) / 2 ^ 32"
  subgoal using rnd_binade [of "- 10" q] by (simp add: power_int_minus)
  subgoal using rnd_binade [of "- 9" q] by (simp add: power_int_minus)
  subgoal using rnd_binade [of "- 8" q] by (simp add: power_int_minus)
  subgoal using rnd_binade [of "- 7" q] by (simp add: power_int_minus)
  subgoal using rnd_binade [of "- 6" q] by (simp add: power_int_minus)
  subgoal using rnd_binade [of "- 5" q] by (simp add: power_int_minus)
  subgoal using rnd_binade [of "- 4" q] by (simp add: power_int_minus)
  subgoal using rnd_binade [of "- 3" q] by (simp add: power_int_minus)
  subgoal using rnd_binade [of "- 2" q] by (simp add: power_int_minus)
  subgoal using rnd_binade [of "- 1" q] by (simp add: power_int_minus)
  subgoal using rnd_binade [of "0" q] by (simp add: power_int_minus)
  subgoal using rnd_binade [of "1" q] by (simp add: power_int_minus)
  subgoal using rnd_binade [of "2" q] by (simp add: power_int_minus)
  subgoal using rnd_binade [of "3" q] by (simp add: power_int_minus)
  subgoal using rnd_binade [of "4" q] by (simp add: power_int_minus)
  subgoal using rnd_binade [of "5" q] by (simp add: power_int_minus)
  subgoal using rnd_binade [of "6" q] by (simp add: power_int_minus)
  subgoal using rnd_binade [of "7" q] by (simp add: power_int_minus)
  subgoal using rnd_binade [of "8" q] by (simp add: power_int_minus)
  subgoal using rnd_binade [of "9" q] by (simp add: power_int_minus)
  subgoal using rnd_binade [of "10" q] by (simp add: power_int_minus)
  subgoal using rnd_binade [of "11" q] by (simp add: power_int_minus)
  subgoal using rnd_binade [of "12" q] by (simp add: power_int_minus)
  subgoal using rnd_binade [of "13" q] by (simp add: power_int_minus)
  subgoal using rnd_binade [of "14" q] by (simp add: power_int_minus)
  subgoal using rnd_binade [of "15" q] by (simp add: power_int_minus)
  subgoal using rnd_binade [of "16" q] by (simp add: power_int_minus)
  subgoal using rnd_binade [of "17" q] by (simp add: power_int_minus)
  subgoal using rnd_binade [of "18" q] by (simp add: power_int_minus)
  subgoal using rnd_binade [of "19" q] by (simp add: power_int_minus)
  subgoal using rnd_binade [of "20" q] by (simp add: power_int_minus)
  done

lemma double_literals:
  "double (1 / 2) = Fin (1 / 2)"
  "double (4 / 5) = Fin (3602879701896397 / 4503599627370496)"
  "double (1 / 1000) = Fin (1152921504606847 / 1152921504606846976)"
  "double (1 / 500) = Fin (1152921504606847 / 576460752303423488)"
  "double (3 / 5) = Fin (5404319552844595 / 9007199254740992)"
  "double (11 / 10) = Fin (2476979795053773 / 2251799813685248)"
  "double (3 / 10) = Fin (5404319552844595 / 18014398509481984)"
  by (simp_all add: num_eval)

lemmas fast_eval = double_literals double_fin rnd_eval rnd_consts round_even_def Let_def

lemma accumulate_numeral:
  "accumulate (numeral k) increment w = accumulate (pred_numeral k) increment (raise increment w)"
  by (simp add: numeral_eq_Suc)

lemma accumulate_Suc:
  "accumulate (Suc n) increment w = raise increment (accumulate n increment w)"
  by (induction n arbitrary: w) simp_all

lemma double_between:
  assumes "lo \<le> q" "q \<le> hi" "rnd lo = lo" "rnd hi = hi" "- (2 ^ 1024) < lo" "hi < 2 ^ 1024"
  shows "\<exists>r. double q = Fin r \<and> lo \<le> r \<and> r \<le> hi"
proof -
  have "rnd lo \<le> rnd q" "rnd q \<le> rnd hi"
    using assms(1,2) by (auto intro: rnd_mono)
  then have "lo \<le> rnd q" "rnd q \<le> hi" using assms(3,4) by simp_all
  then show ?thesis using assms(5,6) by (simp add: double_def Let_def)
qed

lemma newDroplet_velocityX:
  assumes "unit_interval r"
  shows "\<exists>v. jmul (jsub r (double (1 / 2))) (Fin 2) = Fin v \<and> - 1 \<le> v \<and> v \<le> 1"
proof -
  from assms obtain q where r: "r = Fin q" and q: "0 \<le> q" "q < 1"
    by (auto simp: unit_interval_def split: jsnum.splits)
  have "\<exists>a. double (q - 1 / 2) = Fin a \<and> - (1 / 2) \<le> a \<and> a \<le> 1 / 2"
    using q by (intro double_between) (simp_all add: rnd_consts rnd_minus)
  then obtain a where a: "double (q - 1 / 2) = Fin a" "- (1 / 2) \<le> a" "a \<le> 1 / 2" by auto
  have "\<exists>v. double (a * 2) = Fin v \<and> - 1 \<le> v \<and> v \<le> 1"
    using a(2,3) by (intro double_between) (simp_all add: rnd_consts rnd_minus)
  then show ?thesis using r a(1) by (simp add: double_literals)
qed

section \<open>The droplet cap\<close>

lemma perform_droplets_cap:
  assumes "length (droplets a) \<le> n \<and> maxDroplets a = n" "perform rand c a = Inr b"
  shows "length (droplets b) \<le> n \<and> maxDroplets b = n"
proof (cases c)
  case (AddDroplet x y)
  then show ?thesis using assms by (auto simp: addDroplet_def split: if_splits)
next
  case (Update dt)
  with assms(2) have u: "update rand dt a = Inr b" by simp
  show ?thesis
  proof (rule update_invariant [OF u, where P = "\<lambda>e. length (droplets e) \<le> n \<and> maxDroplets e = n"])
    show "length (droplets a) \<le> n \<and> maxDroplets a = n" by (rule assms(1))
  next
    fix i e e'
    assume "length (droplets e) \<le> n \<and> maxDroplets e = n" "dropletStep rand dt i e = Inr e'"
    then show "length (droplets e') \<le> n \<and> maxDroplets e' = n"
      using dropletStep_length(3) [of rand dt i e e'] dropletStep_frame(3) [of rand dt i e e']
      by simp
  next
    fix i e e'
    assume "length (droplets e) \<le> n \<and> maxDroplets e = n" "splashStep dt i e = Inr e'"
    then show "length (droplets e') \<le> n \<and> maxDroplets e' = n"
      by (simp add: splashStep_frame)
  qed
next
  case (CreateSplash x y)
  then show ?thesis using assms by auto
qed

lemma run_droplets_cap:
  assumes "run rand cs e = Inr e'" "length (droplets e) \<le> maxDroplets e"
  shows "length (droplets e') \<le> maxDroplets e"
proof -
  have "length (droplets e') \<le> maxDroplets e \<and> maxDroplets e' = maxDroplets e"
  proof (rule run_invariant [OF assms(1),
        where P = "\<lambda>a. length (droplets a) \<le> maxDroplets e \<and> maxDroplets a = maxDroplets e"])
    show "length (droplets e) \<le> maxDroplets e \<and> maxDroplets e = maxDroplets e"
      using assms(2) by simp
  next
    fix c a b
    assume "length (droplets a) \<le> maxDroplets e \<and> maxDroplets a = maxDroplets e"
      "perform rand c a = Inr b"
    then show "length (droplets b) \<le> maxDroplets e \<and> maxDroplets b = maxDroplets e"
      by (rule perform_droplets_cap)
  qed
  then show ?thesis ..
qed

text \<open>
  C3.  \<open>addDroplet\<close> called with as many droplets as \<open>maxDroplets\<close> or more returns
  \<open>false\<close> and leaves the engine as it is.  Otherwise it returns \<open>true\<close> and appends
  exactly one droplet: at \<open>(x, y)\<close>, with vertical velocity \<open>0\<close>, life \<open>1\<close>,
  \<open>splashed = false\<close> and the horizontal velocity \<open>(Math.random() - 0.5) * 2\<close>, which
  lies in \<open>[-1, 1]\<close>.  Along every sequence of calls the number of droplets stays at most
  \<open>maxDroplets\<close>, which the constructor sets to \<open>10\<close>.
\<close>

theorem addDroplet_respects_cap:
  "(maxDroplets e \<le> length (droplets e) \<longrightarrow> addDroplet rand x y e = (False, e)) \<and>
   (length (droplets e) < maxDroplets e \<longrightarrow>
      addDroplet rand x y e =
        (True, e\<lparr>droplets := droplets e @ [newDroplet rand (randomCalls e) x y],
                 randomCalls := randomCalls e + 2\<rparr>)) \<and>
   d_x (newDroplet rand n x y) = x \<and> d_y (newDroplet rand n x y) = y \<and>
   d_velocityY (newDroplet rand n x y) = Fin 0 \<and>
   d_life (newDroplet rand n x y) = Fin 1 \<and>
   \<not> d_splashed (newDroplet rand n x y) \<and>
   d_velocityX (newDroplet rand n x y) = jmul (jsub (rand n) (double (1 / 2))) (Fin 2) \<and>
   (unit_interval (rand n) \<longrightarrow>
      (\<exists>v. d_velocityX (newDroplet rand n x y) = Fin v \<and> - 1 \<le> v \<and> v \<le> 1)) \<and>
   (length (droplets e) \<le> maxDroplets e \<and> run rand cs e = Inr e' \<longrightarrow>
      length (droplets e') \<le> maxDroplets e) \<and>
   (run rand cs newEngine = Inr e' \<longrightarrow> length (droplets e') \<le> 10)"
proof -
  have "run rand cs newEngine = Inr e' \<longrightarrow> length (droplets e') \<le> 10"
    using run_droplets_cap [of rand cs newEngine e'] by (simp add: newEngine_def)
  moreover have "unit_interval (rand n) \<longrightarrow>
      (\<exists>v. d_velocityX (newDroplet rand n x y) = Fin v \<and> - 1 \<le> v \<and> v \<le> 1)"
    using newDroplet_velocityX [of "rand n"] by (simp add: newDroplet_def)
  moreover have "length (droplets e) \<le> maxDroplets e \<and> run rand cs e = Inr e' \<longrightarrow>
      length (droplets e') \<le> maxDroplets e"
    using run_droplets_cap [of rand cs e e'] by simp
  ultimately show ?thesis
    by (simp add: addDroplet_def newDroplet_def)
qed

theorem addDroplet_respects_cap_witness:
  "length (droplets newEngine) < maxDroplets newEngine \<and>
   fst (addDroplet (\<lambda>k. Fin 0) (Fin 1) (Fin 2) newEngine) \<and>
   length (droplets (snd (addDroplet (\<lambda>k. Fin 0) (Fin 1) (Fin 2) newEngine))) = 1 \<and>
   maxDroplets (newEngine\<lparr>maxDroplets := 0\<rparr>) \<le> length (droplets (newEngine\<lparr>maxDroplets := 0\<rparr>)) \<and>
   addDroplet (\<lambda>k. Fin 0) (Fin 1) (Fin 2) (newEngine\<lparr>maxDroplets := 0\<rparr>) =
     (False, newEngine\<lparr>maxDroplets := 0\<rparr>) \<and>
   unit_interval (Fin 0) \<and>
   (\<exists>v. d_velocityX (newDroplet (\<lambda>k. Fin 0) 0 (Fin 1) (Fin 2)) = Fin v \<and> - 1 \<le> v \<and> v \<le> 1) \<and>
   run (\<lambda>k. Fin 0) [AddDroplet (Fin 1) (Fin 2)] newEngine =
     Inr (snd (addDroplet (\<lambda>k. Fin 0) (Fin 1) (Fin 2) newEngine)) \<and>
   length (droplets (snd (addDroplet (\<lambda>k. Fin 0) (Fin 1) (Fin 2) newEngine))) \<le> 10"
  using addDroplet_respects_cap [of newEngine "\<lambda>k. Fin 0" "Fin 1" "Fin 2" 0
      "[AddDroplet (Fin 1) (Fin 2)]" "snd (addDroplet (\<lambda>k. Fin 0) (Fin 1) (Fin 2) newEngine)"]
    addDroplet_respects_cap [of "newEngine\<lparr>maxDroplets := 0\<rparr>" "\<lambda>k. Fin 0" "Fin 1" "Fin 2" 0
      "[]" "newEngine\<lparr>maxDroplets := 0\<rparr>"]
  by (simp add: newEngine_def unit_interval_def)

section \<open>The splash cap\<close>

lemma dropletStep_splashes:
  assumes "dropletStep rand dt i e = Inr e'"
    "1 \<le> maxSplashEffects e" "length (splashEffects e) \<le> maxSplashEffects e"
  shows "length (splashEffects e') \<le> maxSplashEffects e"
  using assms
  by (auto simp: dropletStep_def Let_def createSplash_splashEffects split: if_splits)

lemma perform_splashes_cap:
  assumes "1 \<le> n \<and> length (splashEffects a) \<le> n \<and> maxSplashEffects a = n"
    "perform rand c a = Inr b"
  shows "1 \<le> n \<and> length (splashEffects b) \<le> n \<and> maxSplashEffects b = n"
proof (cases c)
  case (AddDroplet x y)
  then show ?thesis using assms by (auto simp: addDroplet_def split: if_splits)
next
  case (Update dt)
  with assms(2) have u: "update rand dt a = Inr b" by simp
  show ?thesis
  proof (rule update_invariant [OF u,
        where P = "\<lambda>e. 1 \<le> n \<and> length (splashEffects e) \<le> n \<and> maxSplashEffects e = n"])
    show "1 \<le> n \<and> length (splashEffects a) \<le> n \<and> maxSplashEffects a = n" by (rule assms(1))
  next
    fix i e e'
    assume "1 \<le> n \<and> length (splashEffects e) \<le> n \<and> maxSplashEffects e = n"
      "dropletStep rand dt i e = Inr e'"
    then show "1 \<le> n \<and> length (splashEffects e') \<le> n \<and> maxSplashEffects e' = n"
      using dropletStep_splashes [of rand dt i e e'] dropletStep_frame(4) [of rand dt i e e']
      by simp
  next
    fix i e e'
    assume "1 \<le> n \<and> length (splashEffects e) \<le> n \<and> maxSplashEffects e = n"
      "splashStep dt i e = Inr e'"
    then show "1 \<le> n \<and> length (splashEffects e') \<le> n \<and> maxSplashEffects e' = n"
      using splashStep_length(3) [of dt i e e'] by (simp add: splashStep_frame)
  qed
next
  case (CreateSplash x y)
  then show ?thesis using assms createSplash_length [of a rand x y] by auto
qed

lemma run_splashes_cap:
  assumes "run rand cs e = Inr e'" "1 \<le> maxSplashEffects e"
    "length (splashEffects e) \<le> maxSplashEffects e"
  shows "length (splashEffects e') \<le> maxSplashEffects e"
proof -
  let ?n = "maxSplashEffects e"
  have "1 \<le> ?n \<and> length (splashEffects e') \<le> ?n \<and> maxSplashEffects e' = ?n"
  proof (rule run_invariant [OF assms(1),
        where P = "\<lambda>a. 1 \<le> ?n \<and> length (splashEffects a) \<le> ?n \<and> maxSplashEffects a = ?n"])
    show "1 \<le> ?n \<and> length (splashEffects e) \<le> ?n \<and> maxSplashEffects e = ?n"
      using assms(2,3) by simp
  next
    fix c a b
    assume "1 \<le> ?n \<and> length (splashEffects a) \<le> ?n \<and> maxSplashEffects a = ?n"
      "perform rand c a = Inr b"
    then show "1 \<le> ?n \<and> length (splashEffects b) \<le> ?n \<and> maxSplashEffects b = ?n"
      by (rule perform_splashes_cap)
  qed
  then show ?thesis by simp
qed

lemma createSplash_recent:
  assumes "1 \<le> maxSplashEffects e" "length (splashEffects e) \<le> maxSplashEffects e"
  shows "splashEffects (createSplash rand x y e) =
         drop (length (splashEffects e) + 1 - maxSplashEffects e)
           (splashEffects e @ [newSplash rand (randomCalls e) x y])"
proof (cases "length (splashEffects e) < maxSplashEffects e")
  case True
  then show ?thesis by (simp add: createSplash_splashEffects)
next
  case False
  with assms have eq: "length (splashEffects e) = maxSplashEffects e" by simp
  with assms(1) obtain a rest where ss: "splashEffects e = a # rest"
    by (cases "splashEffects e") auto
  have k: "length (splashEffects e) + 1 - maxSplashEffects e = Suc 0"
    using eq by simp
  show ?thesis unfolding k using eq ss by (simp add: createSplash_splashEffects)
qed

lemma run_createSplashes:
  assumes "1 \<le> maxSplashEffects e" "length (splashEffects e) \<le> maxSplashEffects e"
  shows "\<exists>e'. run rand (createSplashes ps) e = Inr e' \<and>
           maxSplashEffects e' = maxSplashEffects e \<and>
           splashEffects e' =
             drop (length (splashEffects e) + length ps - maxSplashEffects e)
               (splashEffects e @ created rand (randomCalls e) ps)"
  using assms
proof (induction ps arbitrary: e)
  case Nil
  then show ?case by (simp add: createSplashes_def)
next
  case (Cons p ps)
  obtain x y where p: "p = (x, y)" by (cases p)
  let ?e1 = "createSplash rand x y e"
  let ?new = "newSplash rand (randomCalls e) x y"
  let ?all = "splashEffects e @ [?new]"
  have l1: "length (splashEffects ?e1) \<le> maxSplashEffects ?e1"
    using Cons.prems createSplash_length [of e rand x y] by simp
  have m1: "1 \<le> maxSplashEffects ?e1" using Cons.prems by simp
  from Cons.IH [OF m1 l1] obtain e' where
    r: "run rand (createSplashes ps) ?e1 = Inr e'" and
    m: "maxSplashEffects e' = maxSplashEffects e" and
    s: "splashEffects e' =
          drop (length (splashEffects ?e1) + length ps - maxSplashEffects e)
            (splashEffects ?e1 @ created rand (randomCalls e + 2) ps)"
    by auto
  have s1: "splashEffects ?e1 = drop (length (splashEffects e) + 1 - maxSplashEffects e) ?all"
    using Cons.prems by (rule createSplash_recent)
  have "splashEffects e' =
          drop (length (splashEffects e) + length (p # ps) - maxSplashEffects e)
            (splashEffects e @ created rand (randomCalls e) (p # ps))"
  proof (cases "length (splashEffects e) < maxSplashEffects e")
    case True
    then show ?thesis using s s1 p by simp
  next
    case False
    with Cons.prems have eq: "length (splashEffects e) = maxSplashEffects e" by simp
    with Cons.prems(1) obtain a rest where ss: "splashEffects e = a # rest"
      by (cases "splashEffects e") auto
    have s1': "splashEffects ?e1 = rest @ [?new]"
      using eq ss by (simp add: createSplash_splashEffects)
    have k1: "length (splashEffects ?e1) + length ps - maxSplashEffects e = length ps"
      using eq ss s1' by simp
    have k2: "length (splashEffects e) + length (p # ps) - maxSplashEffects e = Suc (length ps)"
      using eq by simp
    show ?thesis unfolding k2 using s [unfolded k1] s1' ss p by simp
  qed
  then show ?case using r m p by (simp add: createSplashes_def)
qed

text \<open>
  C5.  \<open>createSplash\<close> called with as many splashes as \<open>maxSplashEffects\<close> or more
  removes the oldest splash, at index \<open>0\<close>, and then appends the new one; below the cap
  it only appends.  Along every sequence of calls the number of splashes stays at most
  \<open>maxSplashEffects\<close>, which the constructor sets to \<open>5\<close>.  After one call more than
  the cap on an engine without splashes, the splashes are those of the calls but the
  first, in the order of the calls.
\<close>

theorem createSplash_fifo:
  "(maxSplashEffects e \<le> length (splashEffects e) \<longrightarrow>
      splashEffects (createSplash rand x y e) =
        tl (splashEffects e) @ [newSplash rand (randomCalls e) x y]) \<and>
   (length (splashEffects e) < maxSplashEffects e \<longrightarrow>
      splashEffects (createSplash rand x y e) =
        splashEffects e @ [newSplash rand (randomCalls e) x y]) \<and>
   (1 \<le> maxSplashEffects e \<and> length (splashEffects e) \<le> maxSplashEffects e \<and>
    run rand cs e = Inr e' \<longrightarrow>
      length (splashEffects e') \<le> maxSplashEffects e) \<and>
   (run rand cs newEngine = Inr e' \<longrightarrow> length (splashEffects e') \<le> 5) \<and>
   (1 \<le> maxSplashEffects e \<and> splashEffects e = [] \<and> length ps = maxSplashEffects e + 1 \<longrightarrow>
      (\<exists>e''. run rand (createSplashes ps) e = Inr e'' \<and>
         splashEffects e'' = tl (created rand (randomCalls e) ps) \<and>
         length (splashEffects e'') = maxSplashEffects e))"
proof -
  have a: "1 \<le> maxSplashEffects e \<and> length (splashEffects e) \<le> maxSplashEffects e \<and>
      run rand cs e = Inr e' \<longrightarrow> length (splashEffects e') \<le> maxSplashEffects e"
    using run_splashes_cap [of rand cs e e'] by simp
  have b: "run rand cs newEngine = Inr e' \<longrightarrow> length (splashEffects e') \<le> 5"
    using run_splashes_cap [of rand cs newEngine e'] by (simp add: newEngine_def)
  have c: "1 \<le> maxSplashEffects e \<and> splashEffects e = [] \<and> length ps = maxSplashEffects e + 1 \<longrightarrow>
      (\<exists>e''. run rand (createSplashes ps) e = Inr e'' \<and>
         splashEffects e'' = tl (created rand (randomCalls e) ps) \<and>
         length (splashEffects e'') = maxSplashEffects e)"
  proof (intro impI, elim conjE)
    assume h: "1 \<le> maxSplashEffects e" "splashEffects e = []"
      "length ps = maxSplashEffects e + 1"
    have n: "length (created rand k ps) = length ps" for k
      by (induction rand k ps rule: created.induct) simp_all
    from h(1,2) have "length (splashEffects e) \<le> maxSplashEffects e" by simp
    from run_createSplashes [OF h(1) this, of rand ps] obtain e'' where
      r: "run rand (createSplashes ps) e = Inr e''" and
      s: "splashEffects e'' =
            drop (length (splashEffects e) + length ps - maxSplashEffects e)
              (splashEffects e @ created rand (randomCalls e) ps)"
      by auto
    have "splashEffects e'' = tl (created rand (randomCalls e) ps)"
      using s h(2,3) by (simp add: drop_Suc)
    then show "\<exists>e''. run rand (createSplashes ps) e = Inr e'' \<and>
         splashEffects e'' = tl (created rand (randomCalls e) ps) \<and>
         length (splashEffects e'') = maxSplashEffects e"
      using r h(3) n by simp
  qed
  show ?thesis
    using a b c by (simp add: createSplash_splashEffects)
qed

theorem createSplash_fifo_witness:
  "maxSplashEffects (newEngine\<lparr>maxSplashEffects := 0\<rparr>)
     \<le> length (splashEffects (newEngine\<lparr>maxSplashEffects := 0\<rparr>)) \<and>
   splashEffects (createSplash (\<lambda>k. Fin 0) (Fin 1) (Fin 2) (newEngine\<lparr>maxSplashEffects := 0\<rparr>)) =
     [newSplash (\<lambda>k. Fin 0) 0 (Fin 1) (Fin 2)] \<and>
   length (splashEffects newEngine) < maxSplashEffects newEngine \<and>
   splashEffects (createSplash (\<lambda>k. Fin 0) (Fin 1) (Fin 2) newEngine) =
     [newSplash (\<lambda>k. Fin 0) 0 (Fin 1) (Fin 2)] \<and>
   1 \<le> maxSplashEffects newEngine \<and> splashEffects newEngine = [] \<and>
   run (\<lambda>k. Fin 0) [] newEngine = Inr newEngine \<and>
   length [(Fin 1, Fin 1), (Fin 2, Fin 2), (Fin 3, Fin 3), (Fin 4, Fin 4), (Fin 5, Fin 5),
           (Fin 6, Fin 6)] = maxSplashEffects newEngine + 1 \<and>
   (\<exists>e''. run (\<lambda>k. Fin 0)
             (createSplashes [(Fin 1, Fin 1), (Fin 2, Fin 2), (Fin 3, Fin 3), (Fin 4, Fin 4),
                (Fin 5, Fin 5), (Fin 6, Fin 6)]) newEngine = Inr e'' \<and>
      splashEffects e'' =
        [newSplash (\<lambda>k. Fin 0) 2 (Fin 2) (Fin 2), newSplash (\<lambda>k. Fin 0) 4 (Fin 3) (Fin 3),
         newSplash (\<lambda>k. Fin 0) 6 (Fin 4) (Fin 4), newSplash (\<lambda>k. Fin 0) 8 (Fin 5) (Fin 5),
         newSplash (\<lambda>k. Fin 0) 10 (Fin 6) (Fin 6)])"
  using createSplash_fifo [of "newEngine\<lparr>maxSplashEffects := 0\<rparr>" "\<lambda>k. Fin 0" "Fin 1" "Fin 2"
      "[]" "newEngine\<lparr>maxSplashEffects := 0\<rparr>" "[]"]
    createSplash_fifo [of newEngine "\<lambda>k. Fin 0" "Fin 1" "Fin 2" "[]" newEngine
      "[(Fin 1, Fin 1), (Fin 2, Fin 2), (Fin 3, Fin 3), (Fin 4, Fin 4), (Fin 5, Fin 5),
        (Fin 6, Fin 6)]"]
  by (auto simp: newEngine_def numeral_eq_Suc)

section \<open>The water level\<close>

lemma raised_bounds:
  assumes "waterLevel e = Fin q" "0 \<le> q" "q \<le> 100" "dropletIncrement e = double (4 / 5)"
  shows "\<exists>r. raised e = Fin r \<and> q \<le> r \<and> r \<le> 100"
proof -
  let ?c = "3602879701896397 / 4503599627370496 :: rat"
  have "\<bar>q + ?c\<bar> < 2 powi 7" using assms(2,3) by simp
  then have "q + ?c - 2 powi (7 - 54) \<le> rnd (q + ?c)"
    by (rule rnd_bounds) simp_all
  then have lo: "q \<le> rnd (q + ?c)" by simp
  have "rnd (q + ?c) \<le> rnd 101" using assms(3) by (intro rnd_mono) simp
  also have "rnd 101 = 101" by (simp add: fast_eval)
  finally have hi: "rnd (q + ?c) \<le> 101" .
  have "rnd (q + ?c) < 2 ^ 1024" using hi by simp
  moreover have "- (2 ^ 1024) < rnd (q + ?c)" using lo assms(2) by simp
  ultimately have "double (q + ?c) = Fin (rnd (q + ?c))"
    by (simp add: double_def Let_def)
  then show ?thesis using assms lo by (simp add: raised_def raise_def double_literals)
qed

lemma level_okE: assumes "level_ok w" obtains q where "w = Fin q" "0 \<le> q" "q \<le> 100"
  using assms by (auto simp: level_ok_def split: jsnum.splits)

lemma raised_ok:
  assumes "level_ok (waterLevel e)" "dropletIncrement e = double (4 / 5)"
  shows "level_ok (raised e) \<and> jle (waterLevel e) (raised e)"
proof -
  from assms(1) obtain q where q: "waterLevel e = Fin q" "0 \<le> q" "q \<le> 100"
    by (rule level_okE)
  from raised_bounds [OF q assms(2)] obtain r where "raised e = Fin r" "q \<le> r" "r \<le> 100"
    by auto
  then show ?thesis using q by (simp add: level_ok_def)
qed

lemma jle_refl: "level_ok w \<Longrightarrow> jle w w"
  by (auto simp: level_ok_def split: jsnum.splits)

lemma jle_trans: "jle a b \<Longrightarrow> jle b c \<Longrightarrow> jle a c"
  by (cases a; cases b; cases c) auto

lemma dropletStep_rising:
  assumes "rising w a" "dropletStep rand dt i a = Inr b"
  shows "rising w b"
proof -
  from dropletStep_level [OF assms(2)]
  have "waterLevel b = waterLevel a \<or> waterLevel b = raised a" by auto
  moreover have "dropletIncrement b = dropletIncrement a"
    using assms(2) by (rule dropletStep_frame)
  moreover have "level_ok (raised a) \<and> jle (waterLevel a) (raised a)"
    using assms(1) by (intro raised_ok) (simp_all add: rising_def)
  ultimately show ?thesis using assms(1) by (auto simp: rising_def intro: jle_trans)
qed

lemma perform_rising:
  assumes "rising w a" "perform rand c a = Inr b"
  shows "rising w b"
proof (cases c)
  case (AddDroplet x y)
  then show ?thesis using assms by (auto simp: addDroplet_def rising_def split: if_splits)
next
  case (Update dt)
  with assms(2) have u: "update rand dt a = Inr b" by simp
  show ?thesis
  proof (rule update_invariant [OF u, where P = "rising w"])
    show "rising w a" by (rule assms(1))
  next
    fix i e e'
    assume "rising w e" "dropletStep rand dt i e = Inr e'"
    then show "rising w e'" by (rule dropletStep_rising)
  next
    fix i e e'
    assume "rising w e" "splashStep dt i e = Inr e'"
    then show "rising w e'" by (simp add: rising_def splashStep_frame)
  qed
next
  case (CreateSplash x y)
  then show ?thesis using assms by (auto simp: rising_def)
qed

lemma run_rising:
  assumes "run rand cs e = Inr e'" "level_ok (waterLevel e)"
    "dropletIncrement e = double (4 / 5)"
  shows "rising (waterLevel e) e'"
proof (rule run_invariant [OF assms(1), where P = "rising (waterLevel e)"])
  show "rising (waterLevel e) e"
    using assms(2,3) by (simp add: rising_def jle_refl)
next
  fix c a b
  assume "rising (waterLevel e) a" "perform rand c a = Inr b"
  then show "rising (waterLevel e) b" by (rule perform_rising)
qed

lemma dropletStep_splashed:
  assumes "dropletStep rand dt i a = Inr b" "d_splashed (droplets a ! i)"
  shows "waterLevel b = waterLevel a" "splashEffects b = splashEffects a"
  using assms by (auto simp: dropletStep_def Let_def split: if_splits)

lemma dropletStep_all_splashed:
  assumes "dropletStep rand dt i a = Inr b" "all_splashed a"
  shows "waterLevel b = waterLevel a \<and> all_splashed b"
proof -
  have i: "i < length (droplets a)" using assms(1) by (rule dropletStep_length)
  then have s: "d_splashed (droplets a ! i)"
    using assms(2) by (simp add: all_splashed_def list_all_length)
  have "list_all d_splashed (take i (droplets a) @ drop (Suc i) (droplets a))"
    using assms(2) by (auto simp: all_splashed_def list_all_iff dest: in_set_takeD in_set_dropD)
  moreover have "list_all d_splashed ((droplets a)[i := d])" if "d_splashed d" for d
    using assms(2) that by (auto simp: all_splashed_def list_all_iff dest!: set_update_subset_insert [THEN subsetD])
  ultimately show ?thesis
    using assms(1) s i
    by (auto simp: dropletStep_def Let_def all_splashed_def split: if_splits)
qed

lemma dropletStep_droplets:
  assumes "dropletStep rand dt i a = Inr b"
  shows "droplets b = take i (droplets a) @ drop (Suc i) (droplets a) \<or>
         (\<exists>d. droplets b = (droplets a)[i := d] \<and>
              (d_splashed (droplets a ! i) \<longrightarrow> d_splashed d) \<and>
              (waterLevel b \<noteq> waterLevel a \<longrightarrow> d_splashed d))"
  using assms by (auto simp: dropletStep_def Let_def split: if_splits)

lemmas engine_eval =
  update_def dropletStep_def splashStep_def createSplash_def newSplash_def newDroplet_def
  addDroplet_def newEngine_def raised_def raise_def jgt_def jge_def

lemma run_collided:
  "run half [AddDroplet (Fin 0) (Fin 420), Update (Fin 0)] newEngine = Inr collided"
  by (simp add: engine_eval half_def collided_def fast_eval)

lemma update_collided: "update half (Fin 0) collided = Inr collided"
  by (simp add: engine_eval half_def collided_def fast_eval)

lemma dropletStep_collided: "dropletStep half (Fin 0) 0 collided = Inr collided"
  by (simp add: engine_eval half_def collided_def fast_eval)

lemma update_all_splashed:
  assumes "update rand dt a = Inr b" "all_splashed a"
  shows "waterLevel b = waterLevel a \<and> all_splashed b"
proof (rule update_invariant [OF assms(1),
      where P = "\<lambda>e. waterLevel e = waterLevel a \<and> all_splashed e"])
  show "waterLevel a = waterLevel a \<and> all_splashed a" using assms(2) by simp
next
  fix i e e'
  assume "waterLevel e = waterLevel a \<and> all_splashed e" "dropletStep rand dt i e = Inr e'"
  then show "waterLevel e' = waterLevel a \<and> all_splashed e'"
    using dropletStep_all_splashed [of rand dt i e e'] by simp
next
  fix i e e'
  assume "waterLevel e = waterLevel a \<and> all_splashed e" "splashStep dt i e = Inr e'"
  then show "waterLevel e' = waterLevel a \<and> all_splashed e'"
    by (simp add: all_splashed_def splashStep_frame)
qed

lemma updates_all_splashed:
  assumes "run rand (map Update dts) a = Inr b" "all_splashed a"
  shows "waterLevel b = waterLevel a \<and> all_splashed b"
  using assms
proof (induction dts arbitrary: a)
  case Nil
  then show ?case by simp
next
  case (Cons dt dts)
  from Cons.prems(1) obtain a1 where u: "update rand dt a = Inr a1"
    and r: "run rand (map Update dts) a1 = Inr b"
    by (auto split: sum.splits)
  from update_all_splashed [OF u Cons.prems(2)] Cons.IH [OF r] show ?case by simp
qed

text \<open>
  C1.  From an engine whose level is in \<open>[0, 100]\<close> and whose increment is the
  constructor's \<open>0.8\<close>, every sequence of calls leaves the level in \<open>[0, 100]\<close> and
  not below the level at the start; this holds from the constructed engine.  One pass of
  the loop body either keeps the level or sets it to
  \<open>Math.min(100, waterLevel + dropletIncrement)\<close>.  It keeps the level when the droplet
  is already \<open>splashed\<close>; it removes the droplet or leaves it in place with the flag
  still set if it was set, and set if the level changed.  While every droplet is
  \<open>splashed\<close>, any number of \<open>update\<close> calls keeps the level and the flags.
\<close>

theorem waterLevel_invariants:
  "(level_ok (waterLevel e) \<and> dropletIncrement e = double (4 / 5) \<and> run rand cs e = Inr e' \<longrightarrow>
      level_ok (waterLevel e') \<and> jle (waterLevel e) (waterLevel e')) \<and>
   (run rand cs newEngine = Inr e' \<longrightarrow> level_ok (waterLevel e')) \<and>
   (dropletStep rand dt i e = Inr e' \<longrightarrow>
      (waterLevel e' = waterLevel e \<or>
       waterLevel e' = jmin (Fin 100) (jadd (waterLevel e) (dropletIncrement e))) \<and>
      (d_splashed (droplets e ! i) \<longrightarrow> waterLevel e' = waterLevel e) \<and>
      (droplets e' = take i (droplets e) @ drop (Suc i) (droplets e) \<or>
       (\<exists>d. droplets e' = (droplets e)[i := d] \<and>
            (d_splashed (droplets e ! i) \<longrightarrow> d_splashed d) \<and>
            (waterLevel e' \<noteq> waterLevel e \<longrightarrow> d_splashed d)))) \<and>
   (all_splashed e \<and> run rand (map Update dts) e = Inr e' \<longrightarrow>
      waterLevel e' = waterLevel e \<and> all_splashed e')"
proof -
  have a: "level_ok (waterLevel e') \<and> jle (waterLevel e) (waterLevel e')"
    if "level_ok (waterLevel e)" "dropletIncrement e = double (4 / 5)" "run rand cs e = Inr e'"
    using run_rising [OF that(3,1,2)] by (simp add: rising_def)
  have b: "level_ok (waterLevel e')" if "run rand cs newEngine = Inr e'"
    using run_rising [OF that] by (simp add: rising_def newEngine_def level_ok_def)
  have c: "waterLevel e' = waterLevel e \<or>
       waterLevel e' = jmin (Fin 100) (jadd (waterLevel e) (dropletIncrement e))"
    if "dropletStep rand dt i e = Inr e'"
    using dropletStep_level [OF that] by (auto simp: raised_def raise_def)
  have d: "waterLevel e' = waterLevel e"
    if "dropletStep rand dt i e = Inr e'" "d_splashed (droplets e ! i)"
    using that by (rule dropletStep_splashed)
  have f: "waterLevel e' = waterLevel e \<and> all_splashed e'"
    if "all_splashed e" "run rand (map Update dts) e = Inr e'"
    using that(2,1) by (rule updates_all_splashed)
  show ?thesis
    using a b c d f dropletStep_droplets [of rand dt i e e'] by blast
qed

theorem waterLevel_invariants_witness:
  "level_ok (waterLevel newEngine) \<and> dropletIncrement newEngine = double (4 / 5) \<and>
   run half [AddDroplet (Fin 0) (Fin 420), Update (Fin 0)] newEngine = Inr collided \<and>
   level_ok (waterLevel collided) \<and> jle (waterLevel newEngine) (waterLevel collided) \<and>
   dropletStep half (Fin 0) 0 collided = Inr collided \<and>
   d_splashed (droplets collided ! 0) \<and>
   all_splashed collided \<and> run half (map Update [Fin 0]) collided = Inr collided"
  using waterLevel_invariants [of newEngine half
      "[AddDroplet (Fin 0) (Fin 420), Update (Fin 0)]" collided "Fin 0" 0 "[Fin 0]"]
    waterLevel_invariants [of collided half "[]" collided "Fin 0" 0 "[Fin 0]"]
    run_collided update_collided dropletStep_collided
  by (simp add: newEngine_def level_ok_def all_splashed_def collided_def)

section \<open>The level after n collisions\<close>

lemma accumulate_125:
  "accumulate 125 (double (4 / 5)) (Fin 0) = Fin (439804651110399 / 4398046511104)"
  by (simp add: accumulate_numeral raise_def fast_eval)

lemma raise_full: "raise (double (4 / 5)) (Fin 100) = Fin 100"
  by (simp add: raise_def fast_eval)

lemma accumulate_126: "accumulate 126 (double (4 / 5)) (Fin 0) = Fin 100"
proof -
  have "accumulate (Suc 125) (double (4 / 5)) (Fin 0) =
        raise (double (4 / 5)) (accumulate 125 (double (4 / 5)) (Fin 0))"
    by (rule accumulate_Suc)
  also have "\<dots> = Fin 100"
    unfolding accumulate_125 by (simp add: raise_def fast_eval)
  finally show ?thesis by simp
qed

lemma accumulate_full: "126 \<le> n \<Longrightarrow> accumulate n (double (4 / 5)) (Fin 0) = Fin 100"
proof (induction n)
  case 0
  then show ?case by simp
next
  case (Suc n)
  show ?case
  proof (cases "Suc n = 126")
    case True
    then show ?thesis using accumulate_126 by simp
  next
    case False
    with Suc.prems have "126 \<le> n" by simp
    then have "accumulate n (double (4 / 5)) (Fin 0) = Fin 100" by (rule Suc.IH)
    then show ?thesis by (simp only: accumulate_Suc raise_full)
  qed
qed

lemma step_error:
  fixes q r N :: rat
  assumes "\<bar>q - N * (4 / 5)\<bar> \<le> N / 70368744177664"
    "q + 3602879701896397 / 4503599627370496 - 1 / 140737488355328 \<le> r"
    "r \<le> q + 3602879701896397 / 4503599627370496 + 1 / 140737488355328"
  shows "\<bar>r - (N + 1) * (4 / 5)\<bar> \<le> (N + 1) / 70368744177664"
  using assms unfolding abs_le_iff ring_distribs add_divide_distrib by linarith

lemma small_error:
  fixes q N :: rat
  assumes "\<bar>q - N * (4 / 5)\<bar> \<le> N / 70368744177664" "N \<le> 125"
  shows "\<bar>q - N * (4 / 5)\<bar> < 1 / 100"
  using assms by (simp add: abs_le_iff field_simps)

lemma min_error:
  fixes r t b :: rat
  assumes "\<bar>r - t\<bar> \<le> b" "t \<le> 100"
  shows "\<bar>min 100 r - t\<bar> \<le> b"
proof (cases "100 \<le> r")
  case True
  then have "min 100 r = 100" by simp
  then show ?thesis using assms True by linarith
next
  case False
  then have "min 100 r = r" by simp
  then show ?thesis using assms by simp
qed

lemma accumulate_error:
  "n \<le> 125 \<Longrightarrow>
   \<exists>q. accumulate n (double (4 / 5)) (Fin 0) = Fin q \<and> 0 \<le> q \<and> q \<le> 100 \<and>
       \<bar>q - of_nat n * (4 / 5)\<bar> \<le> of_nat n / 70368744177664"
proof (induction n)
  case 0
  then show ?case by simp
next
  case (Suc n)
  let ?c = "3602879701896397 / 4503599627370496 :: rat"
  from Suc obtain q where q: "accumulate n (double (4 / 5)) (Fin 0) = Fin q" "0 \<le> q" "q \<le> 100"
    "\<bar>q - of_nat n * (4 / 5)\<bar> \<le> of_nat n / 70368744177664"
    by auto
  have n: "(of_nat n :: rat) \<le> 124" using Suc.prems by simp
  have "\<bar>q + ?c\<bar> < 2 powi 7" using q(2,3) by simp
  then have "q + ?c - 2 powi (7 - 54) \<le> rnd (q + ?c)" "rnd (q + ?c) \<le> q + ?c + 2 powi (7 - 54)"
    by (rule rnd_bounds; simp)+
  then have r: "q + ?c - 1 / 2 ^ 47 \<le> rnd (q + ?c)" "rnd (q + ?c) \<le> q + ?c + 1 / 2 ^ 47"
    by simp_all
  have d: "double (q + ?c) = Fin (rnd (q + ?c))"
    using q(2,3) by (intro double_fin) simp
  let ?r = "rnd (q + ?c)"
  let ?t = "of_nat (Suc n) * (4 / 5) :: rat"
  have t: "?t \<le> 100" using n by simp
  have r': "q + ?c - 1 / 140737488355328 \<le> ?r" "?r \<le> q + ?c + 1 / 140737488355328"
    using r by simp_all
  have e: "\<bar>?r - ?t\<bar> \<le> of_nat (Suc n) / 70368744177664"
    using step_error [OF q(4) r'] by (simp add: add.commute)
  have pos: "0 \<le> ?r" using r(1) q(2) by simp
  have "accumulate (Suc n) (double (4 / 5)) (Fin 0) = Fin (min 100 ?r)"
    by (simp only: accumulate_Suc q(1)) (simp add: raise_def double_literals d min_def)
  moreover have "\<bar>min 100 ?r - ?t\<bar> \<le> of_nat (Suc n) / 70368744177664"
    using e t by (rule min_error)
  ultimately show ?case using pos by (intro exI [of _ "min 100 ?r"]) simp
qed

lemma accumulate_tolerance:
  "\<exists>q. accumulate n (double (4 / 5)) (Fin 0) = Fin q \<and>
       \<bar>q - min 100 (of_nat n * (4 / 5))\<bar> < 1 / 100"
proof (cases "n \<le> 125")
  case True
  from accumulate_error [OF True] obtain q where
    q: "accumulate n (double (4 / 5)) (Fin 0) = Fin q"
      "\<bar>q - of_nat n * (4 / 5)\<bar> \<le> of_nat n / 70368744177664"
    by auto
  have N: "(of_nat n :: rat) \<le> 125" using True by simp
  have "\<bar>q - of_nat n * (4 / 5)\<bar> < 1 / 100" using q(2) N by (rule small_error)
  moreover have "min 100 (of_nat n * (4 / 5)) = (of_nat n * (4 / 5) :: rat)"
    using N by (simp add: min_def)
  ultimately show ?thesis using q(1) by (intro exI [of _ q]) simp
next
  case False
  then have n: "126 \<le> n" by simp
  then have "(126 :: rat) \<le> of_nat n" by (metis of_nat_le_iff of_nat_numeral)
  then have "min 100 (of_nat n * (4 / 5)) = (100 :: rat)" by (simp add: min_def)
  then show ?thesis using accumulate_full [OF n] by simp
qed

lemma run_append:
  "run rand (cs @ ds) e = (case run rand cs e of Inl err \<Rightarrow> Inl err | Inr e' \<Rightarrow> run rand ds e')"
  by (induction cs arbitrary: e) (auto split: sum.splits)

lemma surface_below:
  assumes "level_ok w"
  shows "\<exists>s. jsub (Fin 400) (jmul (jdiv w (Fin 100)) (Fin 300)) = Fin s \<and> 100 \<le> s \<and> s \<le> 400"
proof -
  from assms obtain q where q: "w = Fin q" "0 \<le> q" "q \<le> 100" by (rule level_okE)
  have "\<exists>a. double (q / 100) = Fin a \<and> 0 \<le> a \<and> a \<le> 1"
    using q(2,3) by (intro double_between) (simp_all add: rnd_consts)
  then obtain a where a: "double (q / 100) = Fin a" "0 \<le> a" "a \<le> 1" by auto
  have "rnd 300 = 300" "rnd 400 = 400" by (simp_all add: fast_eval)
  then have "\<exists>b. double (a * 300) = Fin b \<and> 0 \<le> b \<and> b \<le> 300"
    using a(2,3) by (intro double_between) (simp_all add: rnd_consts)
  then obtain b where b: "double (a * 300) = Fin b" "0 \<le> b" "b \<le> 300" by auto
  have "\<exists>s. double (400 - b) = Fin s \<and> 100 \<le> s \<and> s \<le> 400"
    using b(2,3) \<open>rnd 400 = 400\<close> by (intro double_between) (simp_all add: rnd_consts)
  then show ?thesis using q(1) a(1) b(1) by simp
qed

lemma splashLoop_frame:
  assumes "splashLoop dt n a = Inr b"
  shows "waterLevel b = waterLevel a \<and> droplets b = droplets a \<and> gravity b = gravity a \<and>
         dropletIncrement b = dropletIncrement a \<and> maxDroplets b = maxDroplets a"
  by (rule splashLoop_invariant [OF assms,
        where P = "\<lambda>e. waterLevel e = waterLevel a \<and> droplets e = droplets a \<and>
          gravity e = gravity a \<and> dropletIncrement e = dropletIncrement a \<and>
          maxDroplets e = maxDroplets a"])
    (simp_all add: splashStep_frame)

lemma collision_round:
  assumes "droplets a = []" "level_ok (waterLevel a)" "gravity a = double (1 / 2)"
    "1 \<le> maxDroplets a"
  shows "\<exists>b. run rand [AddDroplet (Fin 0) (Fin 500), Update (Fin 0)] a = Inr b \<and>
           droplets b = [] \<and> waterLevel b = raised a \<and> gravity b = gravity a \<and>
           dropletIncrement b = dropletIncrement a \<and> maxDroplets b = maxDroplets a"
proof -
  let ?a1 = "snd (addDroplet rand (Fin 0) (Fin 500) a)"
  from surface_below [OF assms(2)] obtain s where
    s: "jsub (Fin 400) (jmul (jdiv (waterLevel a) (Fin 100)) (Fin 300)) = Fin s" "s \<le> 400"
    by auto
  have a1: "droplets ?a1 = [newDroplet rand (randomCalls a) (Fin 0) (Fin 500)]"
    "waterLevel ?a1 = waterLevel a" "gravity ?a1 = gravity a"
    "dropletIncrement ?a1 = dropletIncrement a" "maxDroplets ?a1 = maxDroplets a"
    using assms(1,4) by (simp_all add: addDroplet_def)
  have "\<exists>a2. dropletStep rand (Fin 0) 0 ?a1 = Inr a2 \<and> droplets a2 = [] \<and>
          waterLevel a2 = raised a \<and> gravity a2 = gravity a \<and>
          dropletIncrement a2 = dropletIncrement a \<and> maxDroplets a2 = maxDroplets a"
    using s assms(3)
    by (simp add: dropletStep_def a1 Let_def newDroplet_def raised_def jge_def jgt_def fast_eval)
  then obtain a2 where a2: "dropletStep rand (Fin 0) 0 ?a1 = Inr a2" "droplets a2 = []"
    "waterLevel a2 = raised a" "gravity a2 = gravity a"
    "dropletIncrement a2 = dropletIncrement a" "maxDroplets a2 = maxDroplets a"
    by auto
  obtain b where b: "splashLoop (Fin 0) (length (splashEffects a2)) a2 = Inr b"
    using splashLoop_Inr [of "length (splashEffects a2)" a2 "Fin 0"] by auto
  have "update rand (Fin 0) ?a1 = Inr b"
    using a2(1) b by (simp add: update_def a1(1))
  then show ?thesis using splashLoop_frame [OF b] a2 by simp
qed

lemma run_collisions:
  "\<exists>b. run rand (collisions n) newEngine = Inr b \<and> droplets b = [] \<and>
       waterLevel b = accumulate n (double (4 / 5)) (Fin 0) \<and> level_ok (waterLevel b) \<and>
       gravity b = double (1 / 2) \<and> dropletIncrement b = double (4 / 5) \<and> maxDroplets b = 10"
proof (induction n)
  case 0
  show ?case by (simp add: newEngine_def level_ok_def)
next
  case (Suc n)
  then obtain a where a: "run rand (collisions n) newEngine = Inr a" "droplets a = []"
    "waterLevel a = accumulate n (double (4 / 5)) (Fin 0)" "level_ok (waterLevel a)"
    "gravity a = double (1 / 2)" "dropletIncrement a = double (4 / 5)" "maxDroplets a = 10"
    by auto
  from collision_round [OF a(2,4,5), of rand] a(7) obtain b where
    b: "run rand [AddDroplet (Fin 0) (Fin 500), Update (Fin 0)] a = Inr b" "droplets b = []"
    "waterLevel b = raised a" "gravity b = gravity a"
    "dropletIncrement b = dropletIncrement a" "maxDroplets b = maxDroplets a"
    by auto
  have c: "collisions (Suc n) = collisions n @ [AddDroplet (Fin 0) (Fin 500), Update (Fin 0)]"
    by simp
  have "run rand (collisions (Suc n)) newEngine = Inr b"
    unfolding c run_append a(1) using b(1) by simp
  moreover have "waterLevel b = accumulate (Suc n) (double (4 / 5)) (Fin 0)"
    using b(3) a(3,6) by (simp only: accumulate_Suc raised_def)
  moreover have "level_ok (waterLevel b)"
    using raised_ok [OF a(4,6)] b(3) by simp
  ultimately show ?case using b a(5,6,7) by simp
qed

lemma endToEndLoop_level: "fst (endToEndLoop n increment w ms) = accumulate n increment w"
  by (induction n arbitrary: w ms) (simp_all add: Let_def)

lemma requiredDroplets: "jceil (jdiv (Fin 100) (double (4 / 5))) = Fin 125"
  by (simp add: fast_eval)

lemma testEndToEndFlow_fails: "testEndToEndFlow = Some False"
proof -
  have "iterations (Fin 125) = Some 125" by (simp add: iterations_def)
  moreover have "\<not> jge (fst (endToEndLoop 125 (double (4 / 5)) (Fin 0) newMilestones)) (Fin 100)"
    by (simp only: endToEndLoop_level accumulate_125) (simp add: jge_def)
  ultimately show ?thesis
    by (simp add: testEndToEndFlow_def requiredDroplets Let_def case_prod_unfold del: endToEndLoop.simps)
qed

text \<open>
  C2.  After \<open>n\<close> collisions from level \<open>0\<close> the level differs from
  \<open>min(100, n * 0.8)\<close> by less than \<open>0.01\<close>.  After \<open>125\<close> collisions it is
  \<open>439804651110399 / 4398046511104\<close>, which is below \<open>100\<close>; the next collision raises
  it to \<open>100\<close>.  The same holds for an engine on which \<open>125\<close> and \<open>126\<close> droplets
  collide, and \<open>testEndToEndFlow\<close> computes \<open>flowComplete = false\<close>.
\<close>

theorem accumulation_misses_100:
  "(\<exists>q. accumulate n (double (4 / 5)) (Fin 0) = Fin q \<and>
        \<bar>q - min 100 (of_nat n * (4 / 5))\<bar> < 1 / 100) \<and>
   accumulate 125 (double (4 / 5)) (Fin 0) = Fin (439804651110399 / 4398046511104) \<and>
   (439804651110399 / 4398046511104 :: rat) < 100 \<and>
   accumulate 126 (double (4 / 5)) (Fin 0) = Fin 100 \<and>
   (\<exists>b. run rand (collisions 125) newEngine = Inr b \<and>
        waterLevel b = Fin (439804651110399 / 4398046511104)) \<and>
   (\<exists>b. run rand (collisions 126) newEngine = Inr b \<and> waterLevel b = Fin 100) \<and>
   testEndToEndFlow = Some False"
proof -
  have "\<exists>b. run rand (collisions 125) newEngine = Inr b \<and>
        waterLevel b = Fin (439804651110399 / 4398046511104)"
    using run_collisions [of rand 125] by (auto simp only: accumulate_125)
  moreover have "\<exists>b. run rand (collisions 126) newEngine = Inr b \<and> waterLevel b = Fin 100"
    using run_collisions [of rand 126] by (auto simp only: accumulate_126)
  ultimately show ?thesis
    using accumulate_tolerance [of n] accumulate_125 accumulate_126 testEndToEndFlow_fails
    by simp
qed

section \<open>Milestone evaluation\<close>

lemma evaluate_names:
  "fst (evaluate level ms) =
     map fst (filter (\<lambda>(k, m). \<not> achieved m \<and> jge level (threshold m)) ms)"
  by (induction level ms rule: evaluate.induct) (auto simp: Let_def split: prod.splits)

lemma evaluate_table:
  "snd (evaluate level ms) =
     map (\<lambda>(k, m). (k, m\<lparr>achieved := achieved m \<or> jge level (threshold m)\<rparr>)) ms"
  by (induction level ms rule: evaluate.induct) (auto simp: Let_def split: prod.splits)

lemma evaluate_again:
  assumes "\<forall>(k, m) \<in> set ms. jge level' (threshold m) \<longrightarrow> jge level (threshold m)"
  shows "fst (evaluate level' (snd (evaluate level ms))) = []"
  using assms unfolding evaluate_names evaluate_table
  by (auto simp: filter_empty_conv)

text \<open>
  C4.  One evaluation reports, in the order of the table, the keys of the milestones
  that are not yet achieved and whose threshold is at most the level, and marks exactly
  those; an achieved milestone stays achieved.  A second evaluation at the same level,
  or at a level that reaches no further threshold, reports nothing.  The table is
  \<open>fish = 30\<close>, \<open>waves = 70\<close>, \<open>completion = 100\<close>, in ascending order of the
  thresholds, and one evaluation of the new table at level \<open>100\<close> reports
  \<open>['fish', 'waves', 'completion']\<close>.
\<close>

theorem evaluate_once:
  "fst (evaluate level ms) =
     map fst (filter (\<lambda>(k, m). \<not> achieved m \<and> jge level (threshold m)) ms) \<and>
   snd (evaluate level ms) =
     map (\<lambda>(k, m). (k, m\<lparr>achieved := achieved m \<or> jge level (threshold m)\<rparr>)) ms \<and>
   fst (evaluate level (snd (evaluate level ms))) = [] \<and>
   ((\<forall>(k, m) \<in> set ms. jge level' (threshold m) \<longrightarrow> jge level (threshold m)) \<longrightarrow>
      fst (evaluate level' (snd (evaluate level ms))) = []) \<and>
   map (\<lambda>(k, m). (k, threshold m, achieved m)) newMilestones =
     [(''fish'', Fin 30, False), (''waves'', Fin 70, False), (''completion'', Fin 100, False)] \<and>
   evaluate (Fin 100) newMilestones =
     ([''fish'', ''waves'', ''completion''],
      [(''fish'', \<lparr>threshold = Fin 30, achieved = True\<rparr>),
       (''waves'', \<lparr>threshold = Fin 70, achieved = True\<rparr>),
       (''completion'', \<lparr>threshold = Fin 100, achieved = True\<rparr>)])"
proof -
  have "fst (evaluate level (snd (evaluate level ms))) = []"
    by (rule evaluate_again) auto
  moreover have "(\<forall>(k, m) \<in> set ms. jge level' (threshold m) \<longrightarrow> jge level (threshold m)) \<longrightarrow>
      fst (evaluate level' (snd (evaluate level ms))) = []"
    using evaluate_again [of ms level' level] by blast
  ultimately show ?thesis
    by (simp add: evaluate_names evaluate_table newMilestones_def jge_def prod_eq_iff)
qed

theorem evaluate_once_witness:
  "map (\<lambda>(k, m). (jge (Fin 65) (threshold m), jge (Fin 30) (threshold m))) newMilestones =
     [(True, True), (False, False), (False, False)] \<and>
   fst (evaluate (Fin 30) newMilestones) = [''fish''] \<and>
   fst (evaluate (Fin 65) (snd (evaluate (Fin 30) newMilestones))) = [] \<and>
   fst (evaluate (Fin 70) (snd (evaluate (Fin 30) newMilestones))) = [''waves'']"
  using evaluate_once [of "Fin 30" newMilestones "Fin 65"]
    evaluate_once [of "Fin 70" "snd (evaluate (Fin 30) newMilestones)" "Fin 70"]
  by (simp add: newMilestones_def jge_def)

section \<open>The performance ladder\<close>

lemma jmax_Fin [simp]: "jmax (Fin a) (Fin b) = Fin (max a b)"
  by (simp add: max_def)

lemma jmin_Fin [simp]: "jmin (Fin a) (Fin b) = Fin (min a b)"
  by (simp add: min_def)

lemma rnd_floor_level:
  "rnd (5404319552844595 / 18014398509481984) = 5404319552844595 / 18014398509481984"
  by (simp add: fast_eval)

lemma degrade_bounds:
  assumes "5404319552844595 / 18014398509481984 \<le> l" "l \<le> 1" "0 \<le> c" "c \<le> 1"
  shows "\<exists>r. jmax (double (3 / 10)) (jmul (Fin l) (Fin c)) = Fin r \<and>
           5404319552844595 / 18014398509481984 \<le> r \<and> r \<le> 1"
proof -
  have "0 \<le> l * c" "l * c \<le> 1"
    using assms by (simp_all add: mult_le_one)
  then have "\<exists>r. double (l * c) = Fin r \<and> 0 \<le> r \<and> r \<le> 1"
    by (intro double_between) (simp_all add: rnd_consts)
  then obtain r where "double (l * c) = Fin r" "0 \<le> r" "r \<le> 1" by auto
  then show ?thesis
    by (intro exI [of _ "max (5404319552844595 / 18014398509481984) r"])
      (simp add: double_literals)
qed

lemma recover_bounds:
  assumes "5404319552844595 / 18014398509481984 \<le> l" "l \<le> 1"
  shows "\<exists>r. jmin (Fin 1) (jmul (Fin l) (double (11 / 10))) = Fin r \<and>
           5404319552844595 / 18014398509481984 \<le> r \<and> r \<le> 1"
proof -
  let ?c = "2476979795053773 / 2251799813685248 :: rat"
  have "l \<le> l * ?c" using assms(1) by simp
  then have "5404319552844595 / 18014398509481984 \<le> l * ?c" using assms(1) by linarith
  moreover have "l * ?c \<le> 2" using assms by simp
  ultimately have "\<exists>r. double (l * ?c) = Fin r \<and> 5404319552844595 / 18014398509481984 \<le> r \<and> r \<le> 2"
    by (intro double_between) (simp_all add: rnd_consts rnd_floor_level)
  then obtain r where "double (l * ?c) = Fin r" "5404319552844595 / 18014398509481984 \<le> r"
    by auto
  then show ?thesis
    by (intro exI [of _ "min 1 r"]) (simp add: double_literals)
qed

lemma adjustPerformance_ok:
  assumes "scaler_ok s"
  shows "scaler_ok (snd (adjustPerformance now mon s))"
proof -
  from assms obtain l where l: "performanceLevel s = Fin l"
    "5404319552844595 / 18014398509481984 \<le> l" "l \<le> 1"
    and m: "minPerformanceLevel s = double (3 / 10)" "adjustmentCooldown s = Fin 2000"
    by (auto simp: scaler_ok_def split: jsnum.splits)
  have a: "\<exists>r. jmax (double (3 / 10)) (jmul (Fin l) (double (3 / 5))) = Fin r \<and>
           5404319552844595 / 18014398509481984 \<le> r \<and> r \<le> 1"
    unfolding double_literals(5) using l(2,3) by (intro degrade_bounds) simp_all
  have b: "\<exists>r. jmax (double (3 / 10)) (jmul (Fin l) (double (4 / 5))) = Fin r \<and>
           5404319552844595 / 18014398509481984 \<le> r \<and> r \<le> 1"
    unfolding double_literals(2) using l(2,3) by (intro degrade_bounds) simp_all
  note c = recover_bounds [OF l(2,3)]
  show ?thesis
    using a b c l m
    by (auto simp: adjustPerformance_def Let_def scaler_ok_def)
qed

lemma degrade_strict:
  assumes "5404319552844595 / 18014398509481984 < l" "l \<le> 1"
  shows "\<exists>r. jmax (double (3 / 10)) (jmul (Fin l) (double (3 / 5))) = Fin r \<and> r < l"
proof -
  let ?c = "5404319552844595 / 9007199254740992 :: rat"
  have "\<bar>l * ?c\<bar> < 2 powi 0" using assms by simp
  then have "rnd (l * ?c) \<le> l * ?c + 2 powi (0 - 54)"
    by (rule rnd_bounds) (use assms in simp_all)
  then have "rnd (l * ?c) < l" using assms(1) by simp
  moreover have "double (l * ?c) = Fin (rnd (l * ?c))"
    using assms by (intro double_fin) simp
  ultimately show ?thesis using assms(1)
    by (intro exI [of _ "max (5404319552844595 / 18014398509481984) (rnd (l * ?c))"])
      (simp add: double_literals)
qed

lemma adjustPerformance_again:
  assumes "adjustmentCooldown s = Fin 2000"
    "\<not> jlt (jsub (Fin t) (lastAdjustment s)) (adjustmentCooldown s)"
  shows "fst (adjustPerformance (Fin (t + 500)) mon' (snd (adjustPerformance (Fin t) mon s))) =
         fst (adjustPerformance (Fin t) mon s)"
proof -
  have "jsub (Fin (t + 500)) (Fin t) = Fin 500" by (simp add: fast_eval)
  then show ?thesis using assms by (simp add: adjustPerformance_def Let_def)
qed

lemma adjustPerformance_15:
  assumes "scaler_ok s" "\<not> jlt (jsub now (lastAdjustment s)) (adjustmentCooldown s)"
    "getCurrentFps mon = Fin 15"
  shows "\<exists>l r. performanceLevel s = Fin l \<and> fst (adjustPerformance now mon s) = Fin r \<and>
           (5404319552844595 / 18014398509481984 < l \<longrightarrow> r < l) \<and>
           (l = 5404319552844595 / 18014398509481984 \<longrightarrow> r = l)"
proof -
  from assms(1) obtain l where l: "performanceLevel s = Fin l"
    "5404319552844595 / 18014398509481984 \<le> l" "l \<le> 1"
    and m: "minPerformanceLevel s = double (3 / 10)"
    by (auto simp: scaler_ok_def split: jsnum.splits)
  have new: "fst (adjustPerformance now mon s) =
      jmax (double (3 / 10)) (jmul (Fin l) (double (3 / 5)))"
    using assms(2,3) l(1) m by (simp add: adjustPerformance_def Let_def)
  show ?thesis
  proof (cases "l = 5404319552844595 / 18014398509481984")
    case True
    have "jmax (double (3 / 10)) (jmul (Fin l) (double (3 / 5))) = Fin l"
      unfolding True by (simp add: fast_eval)
    then show ?thesis using l(1) new True
      by (intro exI [of _ l]) simp
  next
    case False
    with l(2) have "5404319552844595 / 18014398509481984 < l" by simp
    from degrade_strict [OF this l(3)] show ?thesis using l(1) new False by auto
  qed
qed

text \<open>
  C6, as the code has it.  Within the cooldown since \<open>lastAdjustment\<close> the call returns
  the current level and changes nothing, so a call \<open>500\<close> ms after a call that was not
  within the cooldown returns the level that call returned.  Otherwise the level becomes
  \<open>max(minPerformanceLevel, level * 0.6)\<close> for \<open>fps < 20\<close>, else
  \<open>max(minPerformanceLevel, level * 0.8)\<close> for \<open>fps < 30\<close>, else
  \<open>min(1.0, level * 1.1)\<close> for \<open>fps > 50\<close> and \<open>level < 1.0\<close>, else stays, and
  \<open>lastAdjustment\<close> becomes the clock reading.  With the floor \<open>0.3\<close> a level in
  \<open>[0.3, 1.0]\<close> stays there.  With \<open>fps = 15\<close> after the cooldown, a level above the
  floor decreases strictly, and a level at the floor stays at the floor.
\<close>

theorem adjustPerformance_ladder:
  "(jlt (jsub now (lastAdjustment s)) (adjustmentCooldown s) \<longrightarrow>
      adjustPerformance now mon s = (performanceLevel s, s)) \<and>
   (\<not> jlt (jsub now (lastAdjustment s)) (adjustmentCooldown s) \<longrightarrow>
      adjustPerformance now mon s =
        (let fps = getCurrentFps mon;
             level =
               (if jlt fps (Fin 20)
                then jmax (minPerformanceLevel s) (jmul (performanceLevel s) (double (6 / 10)))
                else if jlt fps (Fin 30)
                then jmax (minPerformanceLevel s) (jmul (performanceLevel s) (double (8 / 10)))
                else if jgt fps (Fin 50) \<and> jlt (performanceLevel s) (Fin 1)
                then jmin (Fin 1) (jmul (performanceLevel s) (double (11 / 10)))
                else performanceLevel s)
         in (level, s\<lparr>performanceLevel := level, lastAdjustment := now\<rparr>))) \<and>
   (scaler_ok s \<longrightarrow> scaler_ok (snd (adjustPerformance now mon s))) \<and>
   (adjustmentCooldown s = Fin 2000 \<and>
    \<not> jlt (jsub (Fin t) (lastAdjustment s)) (adjustmentCooldown s) \<longrightarrow>
      fst (adjustPerformance (Fin (t + 500)) mon' (snd (adjustPerformance (Fin t) mon s))) =
      fst (adjustPerformance (Fin t) mon s)) \<and>
   (scaler_ok s \<and> \<not> jlt (jsub now (lastAdjustment s)) (adjustmentCooldown s) \<and>
    getCurrentFps mon = Fin 15 \<longrightarrow>
      (\<exists>l r. performanceLevel s = Fin l \<and> fst (adjustPerformance now mon s) = Fin r \<and>
         (5404319552844595 / 18014398509481984 < l \<longrightarrow> r < l) \<and>
         (l = 5404319552844595 / 18014398509481984 \<longrightarrow> r = l)))"
proof -
  have a: "jlt (jsub now (lastAdjustment s)) (adjustmentCooldown s) \<longrightarrow>
      adjustPerformance now mon s = (performanceLevel s, s)"
    by (simp add: adjustPerformance_def)
  have b: "\<not> jlt (jsub now (lastAdjustment s)) (adjustmentCooldown s) \<longrightarrow>
      adjustPerformance now mon s =
        (let fps = getCurrentFps mon;
             level =
               (if jlt fps (Fin 20)
                then jmax (minPerformanceLevel s) (jmul (performanceLevel s) (double (6 / 10)))
                else if jlt fps (Fin 30)
                then jmax (minPerformanceLevel s) (jmul (performanceLevel s) (double (8 / 10)))
                else if jgt fps (Fin 50) \<and> jlt (performanceLevel s) (Fin 1)
                then jmin (Fin 1) (jmul (performanceLevel s) (double (11 / 10)))
                else performanceLevel s)
         in (level, s\<lparr>performanceLevel := level, lastAdjustment := now\<rparr>))"
    by (simp add: adjustPerformance_def Let_def)
  show ?thesis
    using a b adjustPerformance_ok [of s now mon] adjustPerformance_again [of s t mon' mon]
      adjustPerformance_15 [of s now mon]
    by blast
qed

lemmas scaler_eval =
  adjustPerformance_def getCurrentFps_def slow_def newFrameRateMonitor_def
  newPerformanceScaler_def at_floor_def scaler_ok_def jgt_def

theorem adjustPerformance_ladder_witness:
  "jlt (jsub (Fin 100) (lastAdjustment newPerformanceScaler))
     (adjustmentCooldown newPerformanceScaler) \<and>
   adjustPerformance (Fin 100) slow newPerformanceScaler = (Fin 1, newPerformanceScaler) \<and>
   scaler_ok newPerformanceScaler \<and> adjustmentCooldown newPerformanceScaler = Fin 2000 \<and>
   \<not> jlt (jsub (Fin 2000) (lastAdjustment newPerformanceScaler))
       (adjustmentCooldown newPerformanceScaler) \<and>
   getCurrentFps slow = Fin 15 \<and>
   fst (adjustPerformance (Fin 2000) slow newPerformanceScaler) =
     Fin (5404319552844595 / 9007199254740992) \<and>
   scaler_ok (snd (adjustPerformance (Fin 2000) slow newPerformanceScaler)) \<and>
   fst (adjustPerformance (Fin (2000 + 500)) slow
          (snd (adjustPerformance (Fin 2000) slow newPerformanceScaler))) =
     Fin (5404319552844595 / 9007199254740992)"
  using adjustPerformance_ladder [of "Fin 100" newPerformanceScaler slow 2000 slow]
    adjustPerformance_ladder [of "Fin 2000" newPerformanceScaler slow 2000 slow]
  by (simp add: scaler_eval fast_eval)

text \<open>
  C6 as stated fails twice.  From the new scaler with \<open>fps = 15\<close>, adjustments at
  \<open>2000\<close>, \<open>4000\<close> and \<open>6000\<close> ms bring the level to the floor, and the call at
  \<open>8000\<close> ms, after the cooldown, returns the same level.  The calls at \<open>1600\<close> and
  \<open>2100\<close> ms on the new scaler are \<open>500\<close> ms apart and return \<open>1\<close> and \<open>0.6\<close>.
\<close>

theorem adjustPerformance_counterexample:
  "snd (adjustPerformance (Fin 6000) slow
          (snd (adjustPerformance (Fin 4000) slow
                  (snd (adjustPerformance (Fin 2000) slow newPerformanceScaler))))) = at_floor \<and>
   getCurrentFps slow = Fin 15 \<and>
   \<not> jlt (jsub (Fin 8000) (lastAdjustment at_floor)) (adjustmentCooldown at_floor) \<and>
   fst (adjustPerformance (Fin 8000) slow at_floor) = performanceLevel at_floor \<and>
   \<not> jlt (fst (adjustPerformance (Fin 8000) slow at_floor)) (performanceLevel at_floor) \<and>
   fst (adjustPerformance (Fin 1600) slow newPerformanceScaler) = Fin 1 \<and>
   fst (adjustPerformance (Fin 2100) slow
          (snd (adjustPerformance (Fin 1600) slow newPerformanceScaler))) =
     Fin (5404319552844595 / 9007199254740992)"
  by (simp add: scaler_eval fast_eval)

section \<open>The frame rate samples\<close>

lemma double_nonpos: "q \<le> 0 \<Longrightarrow> \<not> jgt (double q) (Fin 0)"
  using rnd_nonpos [of q] by (simp add: double_def Let_def jgt_def)

lemma update_monitor_idle:
  assumes "\<not> jgt (jsub now (lastTime m)) (Fin 0)"
  shows "fpsHistory (update_monitor now m) = fpsHistory m"
    "fps (update_monitor now m) = fps m"
    "getCurrentFps (update_monitor now m) = getCurrentFps m"
  using assms by (simp_all add: update_monitor_def getCurrentFps_def Let_def)

lemma update_monitor_push:
  assumes "jgt (jsub now (lastTime m)) (Fin 0)"
  shows "fpsHistory (update_monitor now m) =
           (let pushed = fpsHistory m @ [jdiv (Fin 1000) (jsub now (lastTime m))]
            in if maxHistoryLength m < length pushed then tl pushed else pushed)"
    "fps (update_monitor now m) = getAverageFps (update_monitor now m)"
  using assms by (simp_all add: update_monitor_def getAverageFps_def Let_def)

lemma update_monitor_frame [simp]:
  "maxHistoryLength (update_monitor now m) = maxHistoryLength m"
  "lastTime (update_monitor now m) = now"
  by (simp_all add: update_monitor_def Let_def)

lemma update_monitor_recent:
  assumes "jgt (jsub now (lastTime m)) (Fin 0)" "maxHistoryLength m = 60"
    "length (fpsHistory m) \<le> 60"
  shows "fpsHistory (update_monitor now m) =
           drop (length (fpsHistory m) + 1 - 60)
             (fpsHistory m @ [jdiv (Fin 1000) (jsub now (lastTime m))])"
proof (cases "length (fpsHistory m) = 60")
  case True
  then obtain a rest where h: "fpsHistory m = a # rest" by (cases "fpsHistory m") auto
  have k: "length (fpsHistory m) + 1 - 60 = Suc 0" using True by simp
  show ?thesis unfolding k update_monitor_push(1) [OF assms(1)] using assms(2) True h
    by (simp add: Let_def)
next
  case False
  with assms(3) have "length (fpsHistory m) < 60" by simp
  then show ?thesis unfolding update_monitor_push(1) [OF assms(1)] using assms(2)
    by (simp add: Let_def)
qed

lemma update_monitor_length:
  assumes "maxHistoryLength m = 60" "length (fpsHistory m) \<le> 60"
  shows "length (fpsHistory (update_monitor now m)) \<le> 60"
proof (cases "jgt (jsub now (lastTime m)) (Fin 0)")
  case True
  then show ?thesis using assms by (simp add: update_monitor_recent)
next
  case False
  then show ?thesis using assms by (simp add: update_monitor_idle)
qed

lemma updates_monitor_length:
  assumes "maxHistoryLength m = 60" "length (fpsHistory m) \<le> 60"
  shows "length (fpsHistory (foldl (\<lambda>a t. update_monitor t a) m ts)) \<le> 60"
  using assms
proof (induction ts arbitrary: m)
  case Nil
  then show ?case by simp
next
  case (Cons t ts)
  have "maxHistoryLength (update_monitor t m) = 60" using Cons.prems(1) by simp
  moreover have "length (fpsHistory (update_monitor t m)) \<le> 60"
    using Cons.prems by (rule update_monitor_length)
  ultimately show ?case using Cons.IH by simp
qed

text \<open>
  C10.  When the difference of the clock reading and \<open>lastTime\<close> is not above \<open>0\<close>,
  which is so for a finite reading that is at most \<open>lastTime\<close>, \<open>update\<close> leaves
  \<open>fpsHistory\<close>, \<open>fps\<close> and the reported \<open>getCurrentFps()\<close> as they are; the
  history changes only when the difference is above \<open>0\<close>.  Then the sample
  \<open>1000 / deltaTime\<close> is appended, \<open>fps\<close> becomes the mean of the new history, and
  with the constructor's \<open>maxHistoryLength = 60\<close> the history is the most recent
  \<open>60\<close> samples; from the constructed monitor it never has more than \<open>60\<close>.
\<close>

theorem update_monitor_samples:
  "(\<not> jgt (jsub now (lastTime m)) (Fin 0) \<longrightarrow>
      fpsHistory (update_monitor now m) = fpsHistory m \<and>
      fps (update_monitor now m) = fps m \<and>
      getCurrentFps (update_monitor now m) = getCurrentFps m) \<and>
   (now = Fin a \<and> lastTime m = Fin b \<and> a \<le> b \<longrightarrow> \<not> jgt (jsub now (lastTime m)) (Fin 0)) \<and>
   (fpsHistory (update_monitor now m) \<noteq> fpsHistory m \<longrightarrow> jgt (jsub now (lastTime m)) (Fin 0)) \<and>
   (jgt (jsub now (lastTime m)) (Fin 0) \<and> maxHistoryLength m = 60 \<and>
    length (fpsHistory m) \<le> 60 \<longrightarrow>
      fpsHistory (update_monitor now m) =
        drop (length (fpsHistory m) + 1 - 60)
          (fpsHistory m @ [jdiv (Fin 1000) (jsub now (lastTime m))]) \<and>
      length (fpsHistory (update_monitor now m)) \<le> 60 \<and>
      fps (update_monitor now m) = getAverageFps (update_monitor now m)) \<and>
   length (fpsHistory (foldl (\<lambda>a t. update_monitor t a) (newFrameRateMonitor t0) ts)) \<le> 60"
proof -
  have a: "now = Fin a \<and> lastTime m = Fin b \<and> a \<le> b \<longrightarrow>
      \<not> jgt (jsub now (lastTime m)) (Fin 0)"
    using double_nonpos [of "a - b"] by auto
  have b: "length (fpsHistory (foldl (\<lambda>a t. update_monitor t a) (newFrameRateMonitor t0) ts)) \<le> 60"
    by (rule updates_monitor_length) (simp_all add: newFrameRateMonitor_def)
  show ?thesis
    using a b update_monitor_idle [of now m] update_monitor_recent [of now m]
      update_monitor_length [of m now] update_monitor_push(2) [of now m]
    by blast
qed

theorem update_monitor_samples_witness:
  "\<not> jgt (jsub (Fin 1000) (lastTime (newFrameRateMonitor (Fin 1000)))) (Fin 0) \<and>
   lastTime (newFrameRateMonitor (Fin 1000)) = Fin 1000 \<and> (1000 :: rat) \<le> 1000 \<and>
   fpsHistory (update_monitor (Fin 1000) (newFrameRateMonitor (Fin 1000))) = [] \<and>
   fps (update_monitor (Fin 1000) (newFrameRateMonitor (Fin 1000))) = Fin 60 \<and>
   jgt (jsub (Fin 1016) (lastTime (newFrameRateMonitor (Fin 1000)))) (Fin 0) \<and>
   maxHistoryLength (newFrameRateMonitor (Fin 1000)) = 60 \<and>
   length (fpsHistory (newFrameRateMonitor (Fin 1000))) \<le> 60 \<and>
   fpsHistory (update_monitor (Fin 1016) (newFrameRateMonitor (Fin 1000))) = [Fin (125 / 2)] \<and>
   fpsHistory (update_monitor (Fin 1016) (newFrameRateMonitor (Fin 1000))) \<noteq>
     fpsHistory (newFrameRateMonitor (Fin 1000)) \<and>
   fps (update_monitor (Fin 1016) (newFrameRateMonitor (Fin 1000))) = Fin (125 / 2)"
  using update_monitor_samples [of "Fin 1000" "newFrameRateMonitor (Fin 1000)" 1000 1000]
    update_monitor_samples [of "Fin 1016" "newFrameRateMonitor (Fin 1000)" 1016 1000]
  by (simp add: newFrameRateMonitor_def getAverageFps_def jlen_def jgt_def fast_eval)

section \<open>The splashes of a tick\<close>

lemma splashStep_aged:
  assumes "i < length (splashEffects e)"
  shows "splashStep dt i e =
         Inr (e\<lparr>splashEffects :=
                  take i (splashEffects e) @
                  filter (\<lambda>s. \<not> expired s) [aged dt (splashEffects e ! i)] @
                  drop (Suc i) (splashEffects e)\<rparr>)"
  using assms
  by (simp add: splashStep_def Let_def aged_def expired_def upd_conv_take_nth_drop)

lemma splashLoop_aged:
  assumes "n \<le> length (splashEffects e)"
  shows "splashLoop dt n e =
         Inr (e\<lparr>splashEffects :=
                  filter (\<lambda>s. \<not> expired s) (map (aged dt) (take n (splashEffects e))) @
                  drop n (splashEffects e)\<rparr>)"
  using assms
proof (induction n arbitrary: e)
  case 0
  then show ?case by simp
next
  case (Suc n)
  let ?ss = "splashEffects e"
  let ?mid = "filter (\<lambda>s. \<not> expired s) [aged dt (?ss ! n)]"
  let ?e1 = "e\<lparr>splashEffects := take n ?ss @ ?mid @ drop (Suc n) ?ss\<rparr>"
  have n: "n < length ?ss" using Suc.prems by simp
  have s: "splashStep dt n e = Inr ?e1" using n by (rule splashStep_aged)
  have l: "n \<le> length (splashEffects ?e1)" using n by simp
  have t: "take n (splashEffects ?e1) = take n ?ss" using n by simp
  have d: "drop n (splashEffects ?e1) = ?mid @ drop (Suc n) ?ss" using n by simp
  have "splashLoop dt (Suc n) e = splashLoop dt n ?e1" using s by simp
  also have "\<dots> = Inr (?e1\<lparr>splashEffects :=
      filter (\<lambda>s. \<not> expired s) (map (aged dt) (take n (splashEffects ?e1))) @
      drop n (splashEffects ?e1)\<rparr>)"
    using l by (rule Suc.IH)
  also have "\<dots> = Inr (e\<lparr>splashEffects :=
      filter (\<lambda>s. \<not> expired s) (map (aged dt) (take (Suc n) ?ss)) @ drop (Suc n) ?ss\<rparr>)"
    unfolding t d using n by (simp add: take_Suc_conv_app_nth)
  finally show ?case .
qed

lemma update_aged:
  "\<exists>e1. dropletLoop rand dt (length (droplets e)) e = Inr e1 \<and>
        update rand dt e =
          Inr (e1\<lparr>splashEffects := filter (\<lambda>s. \<not> expired s) (map (aged dt) (splashEffects e1))\<rparr>)"
proof -
  obtain e1 where a: "dropletLoop rand dt (length (droplets e)) e = Inr e1"
    using dropletLoop_Inr [of "length (droplets e)" e rand dt] by auto
  have "splashLoop dt (length (splashEffects e1)) e1 =
        Inr (e1\<lparr>splashEffects := filter (\<lambda>s. \<not> expired s) (map (aged dt) (splashEffects e1))\<rparr>)"
    using splashLoop_aged [of "length (splashEffects e1)" e1 dt] by simp
  with a show ?thesis by (simp add: update_def)
qed

lemma update_one_ms: "update half (Fin 1) collided = Inr one_ms_later"
  by (simp add: engine_eval half_def collided_def one_ms_later_def fast_eval)

text \<open>
  C7, as the code has it.  \<open>update\<close> runs the droplet loop and then replaces the
  splashes by the aged ones that have not expired, in the same order.  Ageing adds
  \<open>expansionSpeed * deltaTime\<close> to the radius, without reading \<open>maxRadius\<close>, and
  subtracts \<open>deltaTime * 0.002\<close> from the opacity and \<open>deltaTime * 0.001\<close> from the
  life; a splash expires exactly when its life or its opacity is at most \<open>0\<close>.
\<close>

theorem splashes_age:
  "(\<exists>e1. dropletLoop rand dt (length (droplets e)) e = Inr e1 \<and>
         update rand dt e =
           Inr (e1\<lparr>splashEffects :=
                    filter (\<lambda>s. \<not> expired s) (map (aged dt) (splashEffects e1))\<rparr>)) \<and>
   s_radius (aged dt s) = jadd (s_radius s) (jmul (s_expansionSpeed s) dt) \<and>
   s_opacity (aged dt s) = jsub (s_opacity s) (jmul dt (double (2 / 1000))) \<and>
   s_life (aged dt s) = jsub (s_life s) (jmul dt (double (1 / 1000))) \<and>
   s_maxRadius (aged dt s) = s_maxRadius s \<and>
   s_expansionSpeed (aged dt s) = s_expansionSpeed s \<and>
   expired s = (jle (s_life s) (Fin 0) \<or> jle (s_opacity s) (Fin 0))"
  using update_aged [of rand dt e] by (simp add: aged_def expired_def)

text \<open>
  C7 as stated fails on \<open>collided\<close>: its splash has \<open>radius = 2\<close>, \<open>maxRadius = 40\<close>
  and \<open>expansionSpeed = 65\<close>; after \<open>update(1)\<close> it is still active, with
  \<open>radius = 67\<close>.
\<close>

theorem radius_exceeds_maxRadius_counterexample:
  "update half (Fin 1) collided = Inr one_ms_later \<and>
   map s_radius (splashEffects one_ms_later) = [Fin 67] \<and>
   map s_maxRadius (splashEffects one_ms_later) = [Fin 40] \<and>
   jgt (Fin 67) (Fin 40)"
  using update_one_ms by (simp add: one_ms_later_def jgt_def)

section \<open>Ticks of any length\<close>

lemma double_nonneg: "0 \<le> q \<Longrightarrow> nonneg (double q)"
  using rnd_nonneg [of q] by (simp add: double_def Let_def)

lemma jmul_nonneg:
  assumes "0 < q" "jge dt (Fin 0)"
  shows "nonneg (jmul (Fin q) dt)"
  using assms by (cases dt) (simp_all add: jge_def double_nonneg inf_of_def)

lemma jadd_nonneg: "nonneg a \<Longrightarrow> nonneg b \<Longrightarrow> nonneg (jadd a b)"
  by (cases a; cases b) (simp_all add: double_nonneg)

lemma aged_ok:
  assumes "splash_ok s" "jge dt (Fin 0)"
  shows "splash_ok (aged dt s)"
proof -
  from assms(1) obtain q where q: "s_expansionSpeed s = Fin q" "0 < q" and r: "nonneg (s_radius s)"
    by (auto simp: splash_ok_def split: jsnum.splits)
  have "nonneg (jadd (s_radius s) (jmul (Fin q) dt))"
    using r jmul_nonneg [OF q(2) assms(2)] by (rule jadd_nonneg)
  then show ?thesis using q by (simp add: splash_ok_def aged_def)
qed

lemma newSplash_ok:
  assumes "unit_interval (rand (Suc n))"
  shows "splash_ok (newSplash rand n x y)"
proof -
  from assms obtain r where r: "rand (Suc n) = Fin r" "0 \<le> r" "r < 1"
    by (auto simp: unit_interval_def split: jsnum.splits)
  have c: "rnd 30 = 30" "rnd 50 = 50" "rnd 80 = 80" by (simp_all add: fast_eval)
  have "\<exists>a. double (r * 30) = Fin a \<and> 0 \<le> a \<and> a \<le> 30"
    using r(2,3) c by (intro double_between) (simp_all add: rnd_consts)
  then obtain a where a: "double (r * 30) = Fin a" "0 \<le> a" "a \<le> 30" by auto
  have "\<exists>b. double (50 + a) = Fin b \<and> 50 \<le> b \<and> b \<le> 80"
    using a(2,3) c by (intro double_between) simp_all
  then obtain b where "double (50 + a) = Fin b" "50 \<le> b" by auto
  then show ?thesis using r(1) a(1) by (simp add: splash_ok_def newSplash_def)
qed

lemma createSplash_ok:
  assumes "radii_ok e" "unit_interval (rand (Suc (randomCalls e)))"
  shows "radii_ok (createSplash rand x y e)"
proof -
  have "list_all splash_ok (tl (splashEffects e))"
    using assms(1) by (cases "splashEffects e") (simp_all add: radii_ok_def)
  then show ?thesis
    using assms newSplash_ok [of rand "randomCalls e" x y]
    by (simp add: radii_ok_def createSplash_splashEffects)
qed

lemma dropletStep_ok:
  assumes "dropletStep rand dt i a = Inr b" "radii_ok a" "\<forall>n. unit_interval (rand n)"
  shows "radii_ok b"
proof -
  have "radii_ok (createSplash rand x y (a\<lparr>waterLevel := w\<rparr>))" for x y w
    using assms(2,3) by (intro createSplash_ok) (simp_all add: radii_ok_def)
  then show ?thesis
    using assms(1,2)
    by (auto simp: dropletStep_def Let_def radii_ok_def split: if_splits)
qed

lemma update_ok:
  assumes "update rand dt e = Inr e'" "radii_ok e" "\<forall>n. unit_interval (rand n)"
    "jge dt (Fin 0)"
  shows "radii_ok e'"
proof -
  from update_aged [of rand dt e] assms(1) obtain e1 where
    a: "dropletLoop rand dt (length (droplets e)) e = Inr e1" and
    b: "e' = e1\<lparr>splashEffects := filter (\<lambda>s. \<not> expired s) (map (aged dt) (splashEffects e1))\<rparr>"
    by auto
  have "radii_ok e1"
  proof (rule dropletLoop_invariant [OF a, where P = radii_ok])
    show "radii_ok e" by (rule assms(2))
  next
    fix i a b
    assume "radii_ok a" "dropletStep rand dt i a = Inr b"
    then show "radii_ok b" using assms(3) by (intro dropletStep_ok [of rand dt i a b])
  qed
  then show ?thesis
    unfolding b using assms(4) by (auto simp: radii_ok_def list_all_iff intro: aged_ok)
qed

lemma update_level:
  assumes "update rand dt e = Inr e'" "level_ok (waterLevel e)"
    "dropletIncrement e = double (4 / 5)"
  shows "level_ok (waterLevel e')"
proof -
  have "rising (waterLevel e) e" using assms(2,3) by (simp add: rising_def jle_refl)
  moreover have "perform rand (Update dt) e = Inr e'" using assms(1) by simp
  ultimately have "rising (waterLevel e) e'" by (rule perform_rising)
  then show ?thesis by (simp add: rising_def)
qed

lemma dropletStep_euler:
  assumes "dropletStep rand dt i e = Inr e'" "length (droplets e') = length (droplets e)"
  shows "d_velocityY (droplets e' ! i) = jadd (d_velocityY (droplets e ! i)) (jmul (gravity e) dt)"
    "d_x (droplets e' ! i) = jadd (d_x (droplets e ! i)) (jmul (d_velocityX (droplets e ! i)) dt)"
    "d_y (droplets e' ! i) = jadd (d_y (droplets e ! i)) (jmul (d_velocityY (droplets e' ! i)) dt)"
    "d_life (droplets e' ! i) = jsub (d_life (droplets e ! i)) (jmul dt (double (1 / 1000)))"
proof -
  have i: "i < length (droplets e)" using assms(1) by (rule dropletStep_length)
  then have "length (take i (droplets e) @ drop (Suc i) (droplets e)) \<noteq> length (droplets e)"
    by simp
  then show "d_velocityY (droplets e' ! i) = jadd (d_velocityY (droplets e ! i)) (jmul (gravity e) dt)"
    "d_x (droplets e' ! i) = jadd (d_x (droplets e ! i)) (jmul (d_velocityX (droplets e ! i)) dt)"
    "d_y (droplets e' ! i) = jadd (d_y (droplets e ! i)) (jmul (d_velocityY (droplets e' ! i)) dt)"
    "d_life (droplets e' ! i) = jsub (d_life (droplets e ! i)) (jmul dt (double (1 / 1000)))"
    using assms i
    by (auto simp: dropletStep_def Let_def split: if_splits)
qed

lemma update_minus_one_ms: "update half (Fin (- 1)) collided = Inr one_ms_earlier"
  by (simp add: engine_eval half_def collided_def one_ms_earlier_def fast_eval)

lemma update_falling: "update half (Fin 1000) falling = Inr fallen"
  by (simp add: engine_eval half_def falling_def fallen_def fast_eval)

lemma dropletStep_one_ms:
  "dropletStep half (Fin 1) 0 collided =
   Inr (one_ms_later\<lparr>splashEffects := splashEffects collided\<rparr>)"
  by (simp add: engine_eval half_def collided_def one_ms_later_def fast_eval)

text \<open>
  C8, as the code has it.  For every \<open>deltaTime\<close>, also \<open>0\<close>, a huge value, an
  infinity or NaN, \<open>update\<close> returns without raising, and a level in \<open>[0, 100]\<close> stays
  in \<open>[0, 100]\<close>.  For \<open>deltaTime \<ge> 0\<close> and random values in \<open>[0, 1)\<close>, splashes with a
  radius that is not negative and a positive expansion speed stay so.  \<open>deltaTime\<close> is
  not clamped: a droplet that stays is integrated with the argument as it is
  (\<open>velocityY += gravity * deltaTime\<close>, \<open>x += velocityX * deltaTime\<close>,
  \<open>y += velocityY * deltaTime\<close>, \<open>life -= deltaTime * 0.001\<close>), and so is every
  splash.
\<close>

theorem update_any_deltaTime:
  "(\<exists>e'. update rand dt e = Inr e') \<and>
   (level_ok (waterLevel e) \<and> dropletIncrement e = double (4 / 5) \<and>
    update rand dt e = Inr e' \<longrightarrow> level_ok (waterLevel e')) \<and>
   (jge dt (Fin 0) \<and> (\<forall>n. unit_interval (rand n)) \<and> radii_ok e \<and>
    update rand dt e = Inr e' \<longrightarrow>
      radii_ok e' \<and> list_all (\<lambda>s. nonneg (s_radius s)) (splashEffects e')) \<and>
   (dropletStep rand dt i e = Inr e' \<and> length (droplets e') = length (droplets e) \<longrightarrow>
      d_velocityY (droplets e' ! i) =
        jadd (d_velocityY (droplets e ! i)) (jmul (gravity e) dt) \<and>
      d_x (droplets e' ! i) =
        jadd (d_x (droplets e ! i)) (jmul (d_velocityX (droplets e ! i)) dt) \<and>
      d_y (droplets e' ! i) =
        jadd (d_y (droplets e ! i)) (jmul (d_velocityY (droplets e' ! i)) dt) \<and>
      d_life (droplets e' ! i) =
        jsub (d_life (droplets e ! i)) (jmul dt (double (1 / 1000)))) \<and>
   (\<exists>e1. dropletLoop rand dt (length (droplets e)) e = Inr e1 \<and>
         update rand dt e =
           Inr (e1\<lparr>splashEffects :=
                    filter (\<lambda>s. \<not> expired s) (map (aged dt) (splashEffects e1))\<rparr>)) \<and>
   s_radius (aged dt s) = jadd (s_radius s) (jmul (s_expansionSpeed s) dt)"
proof -
  have a: "radii_ok e' \<and> list_all (\<lambda>s. nonneg (s_radius s)) (splashEffects e')"
    if "jge dt (Fin 0)" "\<forall>n. unit_interval (rand n)" "radii_ok e" "update rand dt e = Inr e'"
  proof -
    have "radii_ok e'" using that(4,3,2,1) by (rule update_ok)
    then show ?thesis by (auto simp: radii_ok_def splash_ok_def list_all_iff)
  qed
  have b: "s_radius (aged dt s) = jadd (s_radius s) (jmul (s_expansionSpeed s) dt)"
    by (simp add: aged_def)
  show ?thesis
    using a b update_Inr [of rand dt e] update_level [of rand dt e e']
      dropletStep_euler [of rand dt i e e'] update_aged [of rand dt e]
    by blast
qed

theorem update_any_deltaTime_witness:
  "level_ok (waterLevel collided) \<and> dropletIncrement collided = double (4 / 5) \<and>
   update half (Fin 1) collided = Inr one_ms_later \<and>
   level_ok (waterLevel one_ms_later) \<and>
   jge (Fin 1) (Fin 0) \<and> unit_interval (Fin (1 / 2)) \<and> radii_ok collided \<and>
   radii_ok one_ms_later \<and>
   dropletStep half (Fin 1) 0 collided =
     Inr (one_ms_later\<lparr>splashEffects := splashEffects collided\<rparr>) \<and>
   length (droplets (one_ms_later\<lparr>splashEffects := splashEffects collided\<rparr>)) =
     length (droplets collided) \<and>
   d_velocityY (droplets (one_ms_later\<lparr>splashEffects := splashEffects collided\<rparr>) ! 0) =
     jadd (d_velocityY (droplets collided ! 0)) (jmul (gravity collided) (Fin 1))"
proof -
  have h1: "level_ok (waterLevel collided)" "dropletIncrement collided = double (4 / 5)"
    by (simp_all add: collided_def level_ok_def double_literals)
  have h2: "jge (Fin 1) (Fin 0)" "\<forall>n. unit_interval (half n)" "unit_interval (Fin (1 / 2))"
    by (simp_all add: jge_def half_def unit_interval_def)
  have h3: "radii_ok collided"
    by (simp add: collided_def radii_ok_def splash_ok_def)
  have h4: "length (droplets (one_ms_later\<lparr>splashEffects := splashEffects collided\<rparr>)) =
      length (droplets collided)"
    by (simp add: collided_def one_ms_later_def)
  from update_any_deltaTime [of half "Fin 1" collided one_ms_later 0] h1 h2 h3 update_one_ms
  have c1: "level_ok (waterLevel one_ms_later)" "radii_ok one_ms_later"
    by blast+
  from update_any_deltaTime [of half "Fin 1" collided
      "one_ms_later\<lparr>splashEffects := splashEffects collided\<rparr>" 0] h4 dropletStep_one_ms
  have c2: "d_velocityY (droplets (one_ms_later\<lparr>splashEffects := splashEffects collided\<rparr>) ! 0) =
      jadd (d_velocityY (droplets collided ! 0)) (jmul (gravity collided) (Fin 1))"
    by blast
  show ?thesis
    using h1 h2 h3 h4 c1 c2 update_one_ms dropletStep_one_ms by simp
qed

text \<open>
  C8 as stated fails.  \<open>update(-1)\<close> on \<open>collided\<close> leaves its splash active with
  radius \<open>-63\<close>.  \<open>update(1000)\<close> on a droplet at rest gives it the vertical velocity
  \<open>gravity * 1000 = 500\<close> and moves it by \<open>500 * 1000\<close>: the step is not clamped.
\<close>

theorem deltaTime_not_clamped_counterexample:
  "update half (Fin (- 1)) collided = Inr one_ms_earlier \<and>
   map s_radius (splashEffects one_ms_earlier) = [Fin (- 63)] \<and>
   jlt (Fin (- 63)) (Fin 0) \<and>
   update half (Fin 1000) falling = Inr fallen \<and>
   map d_velocityY (droplets falling) = [Fin 0] \<and>
   map d_y (droplets falling) = [Fin (- 1000000)] \<and>
   jmul (gravity falling) (Fin 1000) = Fin 500 \<and>
   map d_velocityY (droplets fallen) = [Fin 500] \<and>
   map d_y (droplets fallen) = [Fin (- 500000)]"
  using update_minus_one_ms update_falling
  by (simp add: one_ms_earlier_def fallen_def falling_def engine_eval fast_eval)

section \<open>Doubles are fixed points of rounding\<close>

lemma rnd_zero: "rnd 0 = 0"
  by (simp add: rnd_def round_even_def)

lemma rnd_integral:
  assumes "q = of_int n * ulp q"
  shows "rnd q = q"
proof -
  have "q / ulp q = of_int n" using assms ulp_pos [of q] by (simp add: field_simps)
  then have "round_even (q / ulp q) = n" by (simp only: round_even_of_int)
  then show ?thesis using assms by (simp add: rnd_def)
qed

lemma powi_nat: "0 \<le> k \<Longrightarrow> (2::rat) powi k = of_int (2 ^ nat k)"
  by (simp add: power_int_nonneg_exp)

lemma scale_integral:
  fixes m :: int and r :: rat
  assumes "r = of_int m * 2 powi a" "b \<le> a"
  shows "r = of_int (m * 2 ^ nat (a - b)) * 2 powi b"
proof -
  have "(2::rat) powi ((a - b) + b) = 2 powi (a - b) * 2 powi b"
    by (rule power_int_add) simp
  moreover have "(2::rat) powi (a - b) = of_int (2 ^ nat (a - b))"
    using assms(2) by (intro powi_nat) simp
  ultimately have "(2::rat) powi a = of_int (2 ^ nat (a - b)) * 2 powi b" by simp
  then show ?thesis using assms(1) by simp
qed

lemma rnd_idem_pos:
  assumes "0 < q"
  shows "rnd (rnd q) = rnd q"
proof (cases "rnd q = 0")
  case True
  then show ?thesis by (simp add: rnd_zero)
next
  case False
  let ?r = "rnd q"
  let ?m = "round_even (q / ulp q)"
  have r: "?r = of_int ?m * 2 powi (bexp q - 52)" by (simp add: rnd_def ulp_def)
  have pos: "0 < ?r" using rnd_nonneg [of q] assms False by simp
  have up: "?r \<le> 2 powi (bexp q + 1)" using assms by (rule rnd_upper)
  show ?thesis
  proof (cases "?r = 2 powi (bexp q + 1)")
    case True
    have "expo ?r = bexp q + 1"
      unfolding True by (rule expo_unique) (simp_all add: power_int_add)
    then have b: "bexp ?r = bexp q + 1" by (simp add: bexp_def)
    have "?r = of_int (2 ^ 52) * ulp ?r"
      unfolding ulp_def b by (simp add: True power_int_add power_int_diff)
    then show ?thesis by (rule rnd_integral)
  next
    case False
    with up have "\<bar>?r\<bar> < 2 powi (bexp q + 1)" using pos by simp
    then have "expo ?r < bexp q + 1" using pos by (intro expo_less) simp_all
    then have b: "bexp ?r \<le> bexp q" by (simp add: bexp_def)
    then have "bexp ?r - 52 \<le> bexp q - 52" by simp
    with r have "?r = of_int (?m * 2 ^ nat (bexp q - 52 - (bexp ?r - 52))) * 2 powi (bexp ?r - 52)"
      by (rule scale_integral)
    then have "?r = of_int (?m * 2 ^ nat (bexp q - 52 - (bexp ?r - 52))) * ulp ?r"
      by (simp only: ulp_def)
    then show ?thesis by (rule rnd_integral)
  qed
qed

lemma rnd_idem: "rnd (rnd q) = rnd q"
proof -
  consider "0 < q" | "q = 0" | "q < 0" by linarith
  then show ?thesis
  proof cases
    case 1
    then show ?thesis by (rule rnd_idem_pos)
  next
    case 2
    then show ?thesis by (simp add: rnd_zero)
  next
    case 3
    then have "rnd (rnd (- q)) = rnd (- q)" by (intro rnd_idem_pos) simp
    then show ?thesis by (simp add: rnd_minus)
  qed
qed

lemma double_double: "double q = Fin r \<Longrightarrow> double r = Fin r"
  by (auto simp: double_def Let_def rnd_idem split: if_splits)

section \<open>Saving and loading progress\<close>

lemma those_flags: "those (map (json_flag \<circ> (\<lambda>(k, b). (k, JBool b))) ms) = Some ms"
  by (induction ms) auto

lemma from_json_stringify:
  assumes "finite_double (p_waterLevel p)"
  shows "parse (stringify p) = Inr j \<Longrightarrow> from_json j = Some p"
  using assms
  by (auto simp: parse_def stringify_def from_json_def finite_double_def those_flags
      split: jsnum.splits)

lemma raised_finite_double:
  assumes "level_ok (waterLevel e)" "dropletIncrement e = double (4 / 5)"
  shows "finite_double (raised e)"
proof -
  from assms(1) obtain q where q: "waterLevel e = Fin q" "0 \<le> q" "q \<le> 100"
    by (rule level_okE)
  let ?c = "3602879701896397 / 4503599627370496 :: rat"
  have d: "double (q + ?c) = Fin (rnd (q + ?c))"
    using q(2,3) by (intro double_fin) simp
  then have dd: "double (rnd (q + ?c)) = Fin (rnd (q + ?c))" by (rule double_double)
  have "double 100 = Fin 100" by (simp add: fast_eval)
  then show ?thesis
    using q(1) assms(2) d dd
    by (simp add: raised_def raise_def double_literals finite_double_def min_def)
qed

lemma run_finite_double:
  assumes "run rand cs newEngine = Inr e'"
  shows "finite_double (waterLevel e')"
proof -
  let ?P = "\<lambda>a. rising (Fin 0) a \<and> finite_double (waterLevel a)"
  have step: "?P b" if "?P a" "dropletStep rand dt i a = Inr b" for a b dt i
  proof -
    have r: "rising (Fin 0) b" using that by (intro dropletStep_rising [of "Fin 0" a rand dt i b]) simp_all
    have "finite_double (raised a)"
      using that(1) by (intro raised_finite_double) (simp_all add: rising_def)
    then show ?thesis using r that(1) dropletStep_level [OF that(2)] by auto
  qed
  have "?P e'"
  proof (rule run_invariant [OF assms, where P = ?P])
    show "?P newEngine"
      by (simp add: rising_def newEngine_def level_ok_def finite_double_def fast_eval)
  next
    fix c a b
    assume a: "?P a" and p: "perform rand c a = Inr b"
    show "?P b"
    proof (cases c)
      case (AddDroplet x y)
      then show ?thesis using a p by (auto simp: addDroplet_def rising_def split: if_splits)
    next
      case (Update dt)
      with p have u: "update rand dt a = Inr b" by simp
      show ?thesis
      proof (rule update_invariant [OF u, where P = ?P])
        show "?P a" by (rule a)
      next
        fix i e1 e2
        assume "?P e1" "dropletStep rand dt i e1 = Inr e2"
        then show "?P e2" by (rule step)
      next
        fix i e1 e2
        assume "?P e1" "splashStep dt i e1 = Inr e2"
        then show "?P e2" by (simp add: rising_def splashStep_frame)
      qed
    next
      case (CreateSplash x y)
      then show ?thesis using a p by (auto simp: rising_def)
    qed
  qed
  then show ?thesis ..
qed

text \<open>
  C9.  On a storage that is available and not full, \<open>save\<close> of a record whose
  \<open>waterLevel\<close> is a finite double succeeds, and \<open>load\<close> after it returns the record;
  so for \<open>{waterLevel: 42, milestones: {fish: true, waves: false, completion: false}}\<close>,
  and for the level of every engine that a sequence of calls reaches from the constructed
  one.  \<open>load\<close> returns \<open>null\<close> when the key is missing, as in the empty storage, when
  the stored string is not JSON, when the document is not such a record, and when the
  storage is unavailable; a failed \<open>save\<close> changes nothing.  Neither raises: a failure
  is a value.
\<close>

theorem save_load_roundtrip:
  "(available st \<and> \<not> full st \<and> finite_double (p_waterLevel p) \<longrightarrow>
      fst (save p st) \<and> load (snd (save p st)) = Some p) \<and>
   (run rand cs newEngine = Inr e' \<longrightarrow> finite_double (waterLevel e')) \<and>
   (items st storageKey = None \<longrightarrow> load st = None) \<and>
   (items st storageKey = Some Malformed \<longrightarrow> load st = None) \<and>
   (items st storageKey = Some (Document j) \<and> from_json j = None \<longrightarrow> load st = None) \<and>
   (\<not> available st \<longrightarrow> load st = None \<and> save p st = (False, st)) \<and>
   (full st \<longrightarrow> save p st = (False, st)) \<and>
   load emptyStorage = None"
proof -
  have "fst (save p st) \<and> load (snd (save p st)) = Some p"
    if "available st" "\<not> full st" "finite_double (p_waterLevel p)"
  proof -
    have "from_json j = Some p" if "parse (stringify p) = Inr j" for j
      using \<open>finite_double (p_waterLevel p)\<close> that by (rule from_json_stringify)
    then show ?thesis
      using that(1,2)
      by (auto simp: save_def load_def setItem_def getItem_def parse_def stringify_def
          split: sum.splits)
  qed
  then show ?thesis
    using run_finite_double [of rand cs e']
    by (auto simp: save_def load_def setItem_def getItem_def parse_def emptyStorage_def
        split: sum.splits option.splits)
qed

theorem save_load_roundtrip_witness:
  "available emptyStorage \<and> \<not> full emptyStorage \<and> finite_double (Fin 42) \<and>
   fst (save \<lparr>p_waterLevel = Fin 42,
              p_milestones = [(''fish'', True), (''waves'', False), (''completion'', False)]\<rparr>
          emptyStorage) \<and>
   load (snd (save \<lparr>p_waterLevel = Fin 42,
                    p_milestones = [(''fish'', True), (''waves'', False), (''completion'', False)]\<rparr>
                emptyStorage)) =
     Some \<lparr>p_waterLevel = Fin 42,
           p_milestones = [(''fish'', True), (''waves'', False), (''completion'', False)]\<rparr> \<and>
   run half [] newEngine = Inr newEngine \<and> finite_double (waterLevel newEngine) \<and>
   items emptyStorage storageKey = None \<and> load emptyStorage = None \<and>
   items (emptyStorage\<lparr>items := (\<lambda>key. Some Malformed)\<rparr>) storageKey = Some Malformed \<and>
   load (emptyStorage\<lparr>items := (\<lambda>key. Some Malformed)\<rparr>) = None \<and>
   items (emptyStorage\<lparr>items := (\<lambda>key. Some (Document JNull))\<rparr>) storageKey =
     Some (Document JNull) \<and>
   from_json JNull = None \<and>
   load (emptyStorage\<lparr>items := (\<lambda>key. Some (Document JNull))\<rparr>) = None \<and>
   \<not> available (emptyStorage\<lparr>available := False\<rparr>) \<and>
   load (emptyStorage\<lparr>available := False\<rparr>) = None \<and>
   full (emptyStorage\<lparr>full := True\<rparr>) \<and>
   save \<lparr>p_waterLevel = Fin 42, p_milestones = []\<rparr> (emptyStorage\<lparr>full := True\<rparr>) =
     (False, emptyStorage\<lparr>full := True\<rparr>)"
proof -
  let ?p = "\<lparr>p_waterLevel = Fin 42,
             p_milestones = [(''fish'', True), (''waves'', False), (''completion'', False)]\<rparr>"
  have h: "available emptyStorage" "\<not> full emptyStorage" "finite_double (Fin 42)"
    "items emptyStorage storageKey = None" "from_json JNull = None"
    by (simp_all add: emptyStorage_def finite_double_def from_json_def fast_eval)
  from save_load_roundtrip [of emptyStorage ?p half "[]" newEngine JNull] h
  have a: "fst (save ?p emptyStorage)" "load (snd (save ?p emptyStorage)) = Some ?p"
    "load emptyStorage = None" "finite_double (waterLevel newEngine)"
    by simp_all
  from save_load_roundtrip [of "emptyStorage\<lparr>items := (\<lambda>key. Some Malformed)\<rparr>" ?p half "[]" newEngine JNull]
  have b: "load (emptyStorage\<lparr>items := (\<lambda>key. Some Malformed)\<rparr>) = None" by simp
  from save_load_roundtrip [of "emptyStorage\<lparr>items := (\<lambda>key. Some (Document JNull))\<rparr>" ?p half "[]" newEngine JNull] h(5)
  have c: "load (emptyStorage\<lparr>items := (\<lambda>key. Some (Document JNull))\<rparr>) = None" by simp
  from save_load_roundtrip [of "emptyStorage\<lparr>available := False\<rparr>" ?p half "[]" newEngine JNull]
  have d: "load (emptyStorage\<lparr>available := False\<rparr>) = None" by simp
  from save_load_roundtrip [of "emptyStorage\<lparr>full := True\<rparr>" "\<lparr>p_waterLevel = Fin 42, p_milestones = []\<rparr>" half "[]" newEngine JNull]
  have e: "save \<lparr>p_waterLevel = Fin 42, p_milestones = []\<rparr> (emptyStorage\<lparr>full := True\<rparr>) =
      (False, emptyStorage\<lparr>full := True\<rparr>)" by simp
  show ?thesis using h a b c d e by simp
qed

end
